theory Spec2Isabelle
  imports Main
begin

section \<open>JavaScript values and plain objects\<close>

text \<open>
  The values the form code handles. A string is a list of code units, so \<open>length\<close> is
  the JavaScript \<open>.length\<close>; only integral numbers are needed. A plain object is the list of
  its own properties in creation order, with distinct keys. \<open>VBuiltin k\<close> stands for the
  member \<open>k\<close> that every plain object inherits from \<open>Object.prototype\<close>.
\<close>

datatype jsval =
    VUndefined
  | VNull
  | VBoolean bool
  | VNumber int
  | VString string
  | VObject "(string \<times> jsval) list"
  | VBuiltin string

type_synonym obj = "(string \<times> jsval) list"

datatype js_error = TypeError

text \<open>The property names an object literal inherits from \<open>Object.prototype\<close>.\<close>

definition object_prototype_keys :: "string list" where
  "object_prototype_keys =
     [''constructor'', ''__defineGetter__'', ''__defineSetter__'', ''hasOwnProperty'',
      ''__lookupGetter__'', ''__lookupSetter__'', ''isPrototypeOf'', ''propertyIsEnumerable'',
      ''toString'', ''valueOf'', ''__proto__'', ''toLocaleString'']"

text \<open>\<open>hasOwnProperty.call(o, k)\<close>.\<close>

definition has_own :: "(string \<times> 'a) list \<Rightarrow> string \<Rightarrow> bool" where
  "has_own ob k = (k \<in> set (map fst ob))"

text \<open>\<open>k in o\<close>: own properties and inherited ones.\<close>

definition has_property :: "(string \<times> 'a) list \<Rightarrow> string \<Rightarrow> bool" where
  "has_property ob k = (has_own ob k \<or> k \<in> set object_prototype_keys)"

text \<open>\<open>o[k]\<close>: the own property, else the inherited member, else \<open>undefined\<close>.\<close>

definition obj_get :: "obj \<Rightarrow> string \<Rightarrow> jsval" where
  "obj_get ob k =
     (case map_of ob k of
        Some v \<Rightarrow> v
      | None \<Rightarrow> if k \<in> set object_prototype_keys then VBuiltin k else VUndefined)"

text \<open>\<open>{...o, [k]: v}\<close>: an existing key keeps its place, a new key is added last.\<close>

fun obj_set :: "(string \<times> 'a) list \<Rightarrow> string \<Rightarrow> 'a \<Rightarrow> (string \<times> 'a) list" where
  "obj_set [] k v = [(k, v)]"
| "obj_set ((k', v') # rest) k v =
     (if k' = k then (k, v) # rest else (k', v') # obj_set rest k v)"

text \<open>
  \<open>Object.keys\<close> lists the keys that are array indices first, in ascending numeric order,
  then the other keys in creation order.
\<close>

definition is_digit :: "char \<Rightarrow> bool" where
  "is_digit ch = (48 \<le> (of_char ch :: nat) \<and> (of_char ch :: nat) \<le> 57)"

definition parse_nat :: "string \<Rightarrow> nat" where
  "parse_nat s = foldl (\<lambda>n ch. 10 * n + ((of_char ch :: nat) - 48)) 0 s"

definition is_array_index :: "string \<Rightarrow> bool" where
  "is_array_index s =
     (s \<noteq> [] \<and> list_all is_digit s \<and> (length s = 1 \<or> hd s \<noteq> CHR ''0'')
      \<and> parse_nat s < 4294967295)"

definition object_entries :: "(string \<times> 'a) list \<Rightarrow> (string \<times> 'a) list" where
  "object_entries ob =
     sort_key (\<lambda>(k, v). parse_nat k) (filter (\<lambda>(k, v). is_array_index k) ob)
     @ filter (\<lambda>(k, v). \<not> is_array_index k) ob"

definition object_keys :: "(string \<times> 'a) list \<Rightarrow> string list" where
  "object_keys ob = map fst (object_entries ob)"

text \<open>Truthiness, as \<open>||\<close> and \<open>&&\<close> test it.\<close>

fun truthy :: "jsval \<Rightarrow> bool" where
  "truthy VUndefined = False"
| "truthy VNull = False"
| "truthy (VBoolean b) = b"
| "truthy (VNumber n) = (n \<noteq> 0)"
| "truthy (VString s) = (s \<noteq> [])"
| "truthy (VObject ps) = True"
| "truthy (VBuiltin k) = True"

text \<open>\<open>String(i)\<close> for an array position.\<close>

fun show_nat :: "nat \<Rightarrow> string" where
  "show_nat n =
     (if n < 10 then [char_of (48 + n)]
      else show_nat (n div 10) @ [char_of (48 + n mod 10)])"

declare show_nat.simps [simp del]

text \<open>\<open>s.trim()\<close> removes white space and line terminators at both ends.\<close>

definition is_white_space :: "char \<Rightarrow> bool" where
  "is_white_space ch = ((of_char ch :: nat) \<in> {9, 10, 11, 12, 13, 32, 160})"

definition trim :: "string \<Rightarrow> string" where
  "trim s = rev (dropWhile is_white_space (rev (dropWhile is_white_space s)))"


section \<open>The io-ts combinators used by \<open>src/types/index.ts\<close>\<close>

text \<open>
  The codecs are built with the combinators of the io-ts library (\<open>t.string\<close>,
  \<open>t.boolean\<close>, \<open>t.brand\<close>, \<open>t.intersection\<close>, \<open>t.union\<close>, \<open>t.type\<close>) and
  \<open>withMessage\<close> of io-ts-types. They are dependencies of the repository, imported by its
  two source files; their \<open>validate\<close> functions are modelled here as the library defines
  them.

  A codec is an object, and \<open>createProps\<close> compares codecs by reference. Every codec a
  combinator builds therefore carries the number of its allocation; \<open>t.string\<close> and
  \<open>t.boolean\<close> are the library's two singletons, objects 0 and 1. The message function
  given to \<open>withMessage\<close> is a constant in every use (\<open>() => validationErrors.X\<close>) and
  is represented by that constant.
\<close>

datatype codec =
    StringType
  | BooleanType
  | RefinementType nat codec "jsval \<Rightarrow> bool" string
  | WithMessage nat codec string
  | IntersectionType nat "codec list"
  | UnionType nat "codec list"

fun object_id :: "codec \<Rightarrow> nat" where
  "object_id StringType = 0"
| "object_id BooleanType = 1"
| "object_id (RefinementType i codec predicate name) = i"
| "object_id (WithMessage i codec msg) = i"
| "object_id (IntersectionType i codecs) = i"
| "object_id (UnionType i codecs) = i"

text \<open>\<open>a === b\<close> on codec objects.\<close>

definition strict_equal :: "codec \<Rightarrow> codec \<Rightarrow> bool" where
  "strict_equal a b = (object_id a = object_id b)"

text \<open>
  A context entry records the key under which a value was reached and the value; its third
  field, the codec, is read nowhere in the repository and is left out. A validation error
  has no message unless \<open>withMessage\<close> gave it one.
\<close>

record ContextEntry =
  key :: string
  actual :: jsval

record ValidationError =
  val :: jsval
  ctx :: "ContextEntry list"
  message :: "string option"

type_synonym Errors = "ValidationError list"

text \<open>\<open>Either<Errors, A>\<close>: \<open>Inl\<close> is \<open>Left\<close> (failure), \<open>Inr\<close> is \<open>Right\<close>.\<close>

type_synonym Validation = "Errors + jsval"

definition failure :: "jsval \<Rightarrow> ContextEntry list \<Rightarrow> Validation" where
  "failure u c = Inl [\<lparr>val = u, ctx = c, message = None\<rparr>]"

definition appendContext :: "ContextEntry list \<Rightarrow> string \<Rightarrow> jsval \<Rightarrow> ContextEntry list" where
  "appendContext c k u = c @ [\<lparr>key = k, actual = u\<rparr>]"

definition getDefaultContext :: "jsval \<Rightarrow> ContextEntry list" where
  "getDefaultContext u = [\<lparr>key = [], actual = u\<rparr>]"

text \<open>
  \<open>validate\<close> of each codec. A refinement (\<open>t.brand\<close>) validates with the underlying codec
  and then tests the predicate. \<open>withMessage\<close> replaces whatever failures the wrapped codec
  reports by one failure carrying the message. An intersection validates the same input
  with every member, from the first to the last, and collects the failures of all of
  them; it succeeds when there is none. A union returns the result of the first member
  that succeeds, and otherwise the failures of all members. Every codec of this type
  returns, on success, the value it was given (lemma \<open>validate_codec_same\<close> below), which is what
  the intersection's merge of its members' results then returns too.
\<close>

fun validate_codec :: "codec \<Rightarrow> jsval \<Rightarrow> ContextEntry list \<Rightarrow> Validation"
  and intersection_errors :: "codec list \<Rightarrow> nat \<Rightarrow> jsval \<Rightarrow> ContextEntry list \<Rightarrow> Errors"
  and union_loop :: "codec list \<Rightarrow> nat \<Rightarrow> jsval \<Rightarrow> ContextEntry list \<Rightarrow> Errors \<Rightarrow> Validation"
where
  "validate_codec StringType u c = (case u of VString s \<Rightarrow> Inr u | _ \<Rightarrow> failure u c)"
| "validate_codec BooleanType u c = (case u of VBoolean b \<Rightarrow> Inr u | _ \<Rightarrow> failure u c)"
| "validate_codec (RefinementType i codec predicate name) u c =
     (case validate_codec codec u c of
        Inl e \<Rightarrow> Inl e
      | Inr a \<Rightarrow> if predicate a then Inr a else failure a c)"
| "validate_codec (WithMessage i codec msg) u c =
     (case validate_codec codec u c of
        Inl e \<Rightarrow> Inl [\<lparr>val = u, ctx = c, message = Some msg\<rparr>]
      | Inr a \<Rightarrow> Inr a)"
| "validate_codec (IntersectionType i codecs) u c =
     (if codecs = [] then Inr u
      else let errors = intersection_errors codecs 0 u c
           in if errors \<noteq> [] then Inl errors else Inr u)"
| "validate_codec (UnionType i codecs) u c = union_loop codecs 0 u c []"
| "intersection_errors [] n u c = []"
| "intersection_errors (codec # rest) n u c =
     (case validate_codec codec u (appendContext c (show_nat n) u) of
        Inl e \<Rightarrow> e
      | Inr a \<Rightarrow> [])
     @ intersection_errors rest (Suc n) u c"
| "union_loop [] n u c errors = Inl errors"
| "union_loop (codec # rest) n u c errors =
     (case validate_codec codec u (appendContext c (show_nat n) u) of
        Inl e \<Rightarrow> union_loop rest (Suc n) u c (errors @ e)
      | Inr a \<Rightarrow> Inr a)"

text \<open>\<open>codec.decode(u)\<close> validates in the default context.\<close>

definition decode :: "codec \<Rightarrow> jsval \<Rightarrow> Validation" where
  "decode codec u = validate_codec codec u (getDefaultContext u)"

text \<open>
  \<open>t.type(props)\<close>: the input must be an object; each property named by \<open>props\<close> is
  validated under its key, in the order of \<open>Object.keys(props)\<close>, and the failures of all
  properties are collected. A property the input lacks, whose codec accepts
  \<open>undefined\<close>, is added to the result.
\<close>

type_synonym Props = "(string \<times> codec) list"

fun type_loop :: "Props \<Rightarrow> obj \<Rightarrow> ContextEntry list \<Rightarrow> Errors \<Rightarrow> Errors \<times> obj" where
  "type_loop [] a c errors = (errors, a)"
| "type_loop ((k, type) # rest) a c errors =
     (let ak = obj_get a k in
      case validate_codec type ak (appendContext c k ak) of
        Inl e \<Rightarrow> type_loop rest a c (errors @ e)
      | Inr vak \<Rightarrow>
          if vak \<noteq> ak \<or> (vak = VUndefined \<and> \<not> has_own a k)
          then type_loop rest (obj_set a k vak) c errors
          else type_loop rest a c errors)"

definition validate_type :: "Props \<Rightarrow> jsval \<Rightarrow> ContextEntry list \<Rightarrow> Validation" where
  "validate_type props u c =
     (case u of
        VObject ps \<Rightarrow>
          (case type_loop (object_entries props) ps c [] of
             (errors, a) \<Rightarrow> if errors \<noteq> [] then Inl errors else Inr (VObject a))
      | _ \<Rightarrow> failure u c)"

definition decode_type :: "Props \<Rightarrow> jsval \<Rightarrow> Validation" where
  "decode_type props u = validate_type props u (getDefaultContext u)"


section \<open>The types of the sign-up form (\<open>src/types/index.ts\<close>)\<close>

definition validationErrors_TypeString :: string where
  "validationErrors_TypeString = ''Invalid string type.''"

definition validationErrors_NonEmptyString :: string where
  "validationErrors_NonEmptyString = ''Can not be empty.''"

definition validationErrors_TrimmedString :: string where
  "validationErrors_TrimmedString = ''Please remove leading and trailing whitespaces.''"

definition validationErrors_TooLong :: string where
  "validationErrors_TooLong = ''Too long.''"

definition validationErrors_TooShort :: string where
  "validationErrors_TooShort = ''Too short.''"

definition validationErrors_EmailString :: string where
  "validationErrors_EmailString = ''Email is not valid.''"

definition validationErrors_PhoneString :: string where
  "validationErrors_PhoneString = ''Invalid phone number.''"

text \<open>
  A brand's predicate is written for a string, and is only reached with a value that
  \<open>t.string\<close> accepted.
\<close>

fun on_string :: "(string \<Rightarrow> bool) \<Rightarrow> jsval \<Rightarrow> bool" where
  "on_string p (VString s) = p s"
| "on_string p v = False"

definition TypeString :: codec where
  "TypeString = WithMessage 2 StringType validationErrors_TypeString"

definition NonEmptyString :: codec where
  "NonEmptyString =
     WithMessage 4
       (RefinementType 3 StringType (on_string (\<lambda>s. length s > 0)) ''NonEmptyString'')
       validationErrors_NonEmptyString"

definition TrimmedString :: codec where
  "TrimmedString =
     WithMessage 6
       (RefinementType 5 StringType (on_string (\<lambda>s. length (trim s) = length s))
          ''TrimmedString'')
       validationErrors_TrimmedString"

definition NonEmptyTrimmedString :: codec where
  "NonEmptyTrimmedString = IntersectionType 7 [TypeString, NonEmptyString, TrimmedString]"

definition Max64String :: codec where
  "Max64String =
     WithMessage 9
       (RefinementType 8 StringType (on_string (\<lambda>s. length s \<le> 64)) ''Max64String'')
       validationErrors_TooLong"

definition Max512String :: codec where
  "Max512String =
     WithMessage 11
       (RefinementType 10 StringType (on_string (\<lambda>s. length s \<le> 512)) ''Max512String'')
       validationErrors_TooLong"

definition Min4String :: codec where
  "Min4String =
     WithMessage 13
       (RefinementType 12 StringType (on_string (\<lambda>s. length s \<ge> 4)) ''Min4String'')
       validationErrors_TooShort"

text \<open>
  \<open>isEmail\<close> and \<open>isMobilePhone\<close> come from the validator package; the codecs that use
  them take them as parameters.
\<close>

type_synonym StringTest = "string \<Rightarrow> bool"

definition EmailString :: "StringTest \<Rightarrow> codec" where
  "EmailString isEmail =
     WithMessage 15
       (RefinementType 14 StringType (on_string (\<lambda>s. isEmail s)) ''EmailString'')
       validationErrors_EmailString"

definition PhoneString :: "StringTest \<Rightarrow> codec" where
  "PhoneString isMobilePhone =
     WithMessage 17
       (RefinementType 16 StringType (on_string (\<lambda>s. isMobilePhone s)) ''PhoneString'')
       validationErrors_PhoneString"

definition String64 :: codec where
  "String64 = IntersectionType 18 [NonEmptyTrimmedString, Max64String]"

definition String512 :: codec where
  "String512 = IntersectionType 19 [NonEmptyTrimmedString, Max512String]"

definition Email :: "StringTest \<Rightarrow> codec" where
  "Email isEmail = IntersectionType 20 [String64, EmailString isEmail]"

definition Password :: codec where
  "Password = IntersectionType 21 [String512, Min4String]"

definition Phone :: "StringTest \<Rightarrow> codec" where
  "Phone isMobilePhone = IntersectionType 22 [NonEmptyTrimmedString, PhoneString isMobilePhone]"

definition SignUpForm :: "StringTest \<Rightarrow> StringTest \<Rightarrow> Props" where
  "SignUpForm isEmail isMobilePhone =
     [(''company'', String64),
      (''email'', Email isEmail),
      (''password'', Password),
      (''phone'', Phone isMobilePhone),
      (''sendNewsletter'', BooleanType)]"


section \<open>The form hook (\<open>useForm\<close>)\<close>

text \<open>Group text input based types; just Checkbox.\<close>

definition TextInputField :: "StringTest \<Rightarrow> StringTest \<Rightarrow> codec" where
  "TextInputField isEmail isMobilePhone =
     UnionType 23 [String64, Email isEmail, Password, Phone isMobilePhone]"

definition CheckboxField :: codec where
  "CheckboxField = BooleanType"

text \<open>\<open>.types\<close> of a union.\<close>

fun types :: "codec \<Rightarrow> codec list" where
  "types (UnionType i codecs) = codecs"
| "types (IntersectionType i codecs) = codecs"
| "types codec = []"

subsection \<open>\<open>errorsToFormErrors\<close>\<close>

text \<open>
  \<open>Array.prototype.reduce\<close> with a callback that may throw: the first exception ends the
  loop.
\<close>

fun reduce :: "('b \<Rightarrow> 'a \<Rightarrow> js_error + 'b) \<Rightarrow> 'b \<Rightarrow> 'a list \<Rightarrow> js_error + 'b" where
  "reduce f acc [] = Inr acc"
| "reduce f acc (x # xs) =
     (case f acc x of
        Inl e \<Rightarrow> Inl e
      | Inr acc' \<Rightarrow> reduce f acc' xs)"

text \<open>The value stored for \<open>error.message\<close>, a string or \<open>undefined\<close>.\<close>

definition message_value :: "ValidationError \<Rightarrow> jsval" where
  "message_value error = (case message error of None \<Rightarrow> VUndefined | Some m \<Rightarrow> VString m)"

text \<open>
  The callback of \<open>errorsToFormErrors\<close>. \<open>error.context[1]\<close> is \<open>undefined\<close> when the
  context has fewer than two entries, and reading \<open>.key\<close> of it throws a TypeError.
\<close>

definition errorsToFormErrors_step :: "obj \<Rightarrow> ValidationError \<Rightarrow> js_error + obj" where
  "errorsToFormErrors_step acc error =
     (case drop 1 (ctx error) of
        [] \<Rightarrow> Inl TypeError
      | entry # _ \<Rightarrow>
          if has_property acc (key entry) then Inr acc
          else Inr (obj_set acc (key entry) (message_value error)))"

definition errorsToFormErrors :: "Errors \<Rightarrow> js_error + obj" where
  "errorsToFormErrors errors = reduce errorsToFormErrors_step [] errors"

subsection \<open>State of the hook\<close>

text \<open>
  \<open>initialStateRef.current\<close>, the two \<open>useState\<close> cells, and the element of the document
  that has the focus (\<open>None\<close> while the form has given it to none). Each render rebuilds
  the callbacks over the current cells, so a callback reads the state it is applied to.
\<close>

record Form =
  initialStateRef :: obj
  state :: obj
  formErrors :: obj
  activeElement :: "nat option"

definition useForm :: "obj \<Rightarrow> Form" where
  "useForm initialState =
     \<lparr>initialStateRef = initialState, state = initialState, formErrors = [],
      activeElement = None\<rparr>"

text \<open>
  What a ref's \<open>current\<close> holds: nothing (\<open>undefined\<close> as \<open>useRef()\<close> leaves it, or
  \<open>null\<close> after unmounting), an HTML element, given by its position in document order, or
  some other object, which may have a \<open>focus\<close> function.
\<close>

datatype RefCurrent = NotMounted | DOMElement nat | OtherObject bool

text \<open>What the host has put in the ref of each field.\<close>

type_synonym Mounted = "string \<Rightarrow> RefCurrent"

text \<open>
  \<open>refsRef.current\<close> holds one ref per key of \<open>codec.props\<close>; the host mounts them, so
  what each holds is a parameter.
\<close>

definition refsRef :: "Props \<Rightarrow> Mounted \<Rightarrow> (string \<times> RefCurrent) list" where
  "refsRef props mounted = foldl (\<lambda>acc k. obj_set acc k (mounted k)) [] (object_keys props)"

text \<open>
  \<open>refsRef.current[key]\<close>: the ref object, else the member inherited from
  \<open>Object.prototype\<close>, else \<open>undefined\<close>.
\<close>

datatype RefSlot = RefObject RefCurrent | InheritedMember | NoRef

definition refs_get :: "(string \<times> RefCurrent) list \<Rightarrow> string \<Rightarrow> RefSlot" where
  "refs_get refs k =
     (case map_of refs k of
        Some r \<Rightarrow> RefObject r
      | None \<Rightarrow> if k \<in> set object_prototype_keys then InheritedMember else NoRef)"

text \<open>\<open>.current\<close> of a slot that is not \<open>undefined\<close>.\<close>

fun current :: "RefSlot \<Rightarrow> RefCurrent" where
  "current (RefObject r) = r"
| "current InheritedMember = NotMounted"
| "current NoRef = NotMounted"

subsection \<open>\<open>focusFirstInvalidField\<close>\<close>

text \<open>\<open>'nodeType' in a\<close> throws a TypeError when \<open>a\<close> is \<open>undefined\<close> or \<open>null\<close>.\<close>

fun isDOMElement :: "RefCurrent \<Rightarrow> js_error + bool" where
  "isDOMElement NotMounted = Inl TypeError"
| "isDOMElement (DOMElement p) = Inr True"
| "isDOMElement (OtherObject f) = Inr False"

text \<open>
  The comparison function given to \<open>sort\<close>. \<open>a.compareDocumentPosition(b)\<close> has the bit
  \<open>DOCUMENT_POSITION_FOLLOWING\<close> when \<open>b\<close> comes after \<open>a\<close> in the document and the bit
  \<open>DOCUMENT_POSITION_PRECEDING\<close> when it comes before.
\<close>

definition compare_refs :: "RefSlot \<Rightarrow> RefSlot \<Rightarrow> js_error + int" where
  "compare_refs ra rb =
     (case isDOMElement (current ra) of
        Inl e \<Rightarrow> Inl e
      | Inr False \<Rightarrow> Inr 0
      | Inr True \<Rightarrow>
          (case isDOMElement (current rb) of
             Inl e \<Rightarrow> Inl e
           | Inr False \<Rightarrow> Inr 0
           | Inr True \<Rightarrow>
               (case (current ra, current rb) of
                  (DOMElement p, DOMElement q) \<Rightarrow>
                    if p < q then Inr (- 1) else if q < p then Inr 1 else Inr 0
                | _ \<Rightarrow> Inr 0)))"

text \<open>
  \<open>Array.prototype.sort\<close> with a comparison function: the elements that are \<open>undefined\<close>
  go last and are never compared; the others are sorted, here by a stable insertion that
  compares the element being placed with those already placed. An exception of the
  comparison function ends the sort.
\<close>

fun insert_sorted :: "('a \<Rightarrow> 'a \<Rightarrow> js_error + int) \<Rightarrow> 'a \<Rightarrow> 'a list \<Rightarrow> js_error + 'a list" where
  "insert_sorted cmp x [] = Inr [x]"
| "insert_sorted cmp x (y # ys) =
     (case cmp x y of
        Inl e \<Rightarrow> Inl e
      | Inr r \<Rightarrow>
          if r < 0 then Inr (x # y # ys)
          else (case insert_sorted cmp x ys of
                  Inl e \<Rightarrow> Inl e
                | Inr zs \<Rightarrow> Inr (y # zs)))"

fun sort_loop :: "('a \<Rightarrow> 'a \<Rightarrow> js_error + int) \<Rightarrow> 'a list \<Rightarrow> 'a list \<Rightarrow> js_error + 'a list" where
  "sort_loop cmp placed [] = Inr placed"
| "sort_loop cmp placed (x # xs) =
     (case insert_sorted cmp x placed of
        Inl e \<Rightarrow> Inl e
      | Inr placed' \<Rightarrow> sort_loop cmp placed' xs)"

definition array_sort :: "(RefSlot \<Rightarrow> RefSlot \<Rightarrow> js_error + int) \<Rightarrow> RefSlot list \<Rightarrow> js_error + RefSlot list" where
  "array_sort cmp xs =
     (case sort_loop cmp [] (filter (\<lambda>x. x \<noteq> NoRef) xs) of
        Inl e \<Rightarrow> Inl e
      | Inr placed \<Rightarrow> Inr (placed @ filter (\<lambda>x. x = NoRef) xs))"

text \<open>
  \<open>focusFirstInvalidField\<close>: reading \<open>.current\<close> of the first element throws when the
  array is empty or the element is \<open>undefined\<close>; \<open>focus()\<close> is called on what the first
  ref holds when that is an object with a \<open>focus\<close> function.
\<close>

definition focusFirstInvalidField :: "(string \<times> RefCurrent) list \<Rightarrow> obj \<Rightarrow> Form \<Rightarrow> js_error + Form" where
  "focusFirstInvalidField refs errs w =
     (case array_sort compare_refs (map (refs_get refs) (object_keys errs)) of
        Inl e \<Rightarrow> Inl e
      | Inr [] \<Rightarrow> Inl TypeError
      | Inr (NoRef # _) \<Rightarrow> Inl TypeError
      | Inr (first # _) \<Rightarrow>
          (case current first of
             DOMElement p \<Rightarrow> Inr (w\<lparr>activeElement := Some p\<rparr>)
           | _ \<Rightarrow> Inr w))"

subsection \<open>\<open>validate\<close> and \<open>reset\<close>\<close>

text \<open>
  \<open>onFail\<close> stores the form errors and then asks for the focus; an exception leaves the
  cells as they are at that point.
\<close>

definition onFail :: "Props \<Rightarrow> Mounted \<Rightarrow> Errors \<Rightarrow> Form \<Rightarrow> Form \<times> js_error option" where
  "onFail props mounted errors w =
     (case errorsToFormErrors errors of
        Inl e \<Rightarrow> (w, Some e)
      | Inr errs \<Rightarrow>
          (case focusFirstInvalidField (refsRef props mounted) errs (w\<lparr>formErrors := errs\<rparr>) of
             Inl e \<Rightarrow> (w\<lparr>formErrors := errs\<rparr>, Some e)
           | Inr w' \<Rightarrow> (w', None)))"

definition onSuccess :: "Form \<Rightarrow> Form" where
  "onSuccess w = w\<lparr>formErrors := []\<rparr>"

text \<open>
  \<open>validate\<close> returns the result of \<open>codec.decode(state)\<close> itself, unless \<open>onFail\<close>
  threw.
\<close>

definition validate :: "Props \<Rightarrow> Mounted \<Rightarrow> Form \<Rightarrow> Form \<times> (js_error + Validation)" where
  "validate props mounted w =
     (let result = decode_type props (VObject (state w)) in
      case result of
        Inl errors \<Rightarrow>
          (case onFail props mounted errors w of
             (w', Some e) \<Rightarrow> (w', Inl e)
           | (w', None) \<Rightarrow> (w', Inr result))
      | Inr a \<Rightarrow> (onSuccess w, Inr result))"

definition reset :: "Form \<Rightarrow> Form" where
  "reset w = w\<lparr>state := initialStateRef w\<rparr>"

subsection \<open>\<open>fields\<close>\<close>

text \<open>The handlers: \<open>setState({ ...state, [key]: target.value })\<close> and its checkbox twin.\<close>

definition text_onChange :: "string \<Rightarrow> string \<Rightarrow> Form \<Rightarrow> Form" where
  "text_onChange k target_value w = w\<lparr>state := obj_set (state w) k (VString target_value)\<rparr>"

definition checkbox_onChange :: "string \<Rightarrow> bool \<Rightarrow> Form \<Rightarrow> Form" where
  "checkbox_onChange k target_checked w =
     w\<lparr>state := obj_set (state w) k (VBoolean target_checked)\<rparr>"

definition onKeyPress :: "Props \<Rightarrow> Mounted \<Rightarrow> string \<Rightarrow> Form \<Rightarrow> Form \<times> js_error option" where
  "onKeyPress props mounted event_key w =
     (if event_key = ''Enter''
      then (case validate props mounted w of
              (w', Inl e) \<Rightarrow> (w', Some e)
            | (w', Inr result) \<Rightarrow> (w', None))
      else (w, None))"

text \<open>
  The props of a field: for a text input the value, \<open>onChange\<close>, \<open>onKeyPress\<close> and the ref;
  for a checkbox \<open>isChecked\<close>, \<open>onChange\<close> and the ref; else the empty object.
\<close>

datatype FieldProps =
    TextInputProps jsval "string \<Rightarrow> Form \<Rightarrow> Form" "string \<Rightarrow> Form \<Rightarrow> Form \<times> js_error option"
      RefSlot
  | CheckboxProps jsval "bool \<Rightarrow> Form \<Rightarrow> Form" RefSlot
  | NoProps

record Field =
  props :: FieldProps
  isInvalid :: bool
  error :: jsval

definition createTextInputProps :: "Props \<Rightarrow> Mounted \<Rightarrow> Form \<Rightarrow> string \<Rightarrow> FieldProps" where
  "createTextInputProps ps mounted w k =
     TextInputProps (obj_get (state w) k) (text_onChange k) (onKeyPress ps mounted)
       (refs_get (refsRef ps mounted) k)"

definition createCheckboxProps :: "Props \<Rightarrow> Mounted \<Rightarrow> Form \<Rightarrow> string \<Rightarrow> FieldProps" where
  "createCheckboxProps ps mounted w k =
     CheckboxProps (obj_get (state w) k) (checkbox_onChange k) (refs_get (refsRef ps mounted) k)"

text \<open>\<open>Array.prototype.includes\<close> compares objects by reference.\<close>

definition array_includes :: "codec list \<Rightarrow> codec \<Rightarrow> bool" where
  "array_includes xs x = list_ex (\<lambda>y. strict_equal y x) xs"

definition createProps ::
  "StringTest \<Rightarrow> StringTest \<Rightarrow> Props \<Rightarrow> Mounted \<Rightarrow> Form \<Rightarrow> string \<Rightarrow> codec
   \<Rightarrow> FieldProps" where
  "createProps isEmail isMobilePhone ps mounted w k type =
     (if array_includes (types (TextInputField isEmail isMobilePhone)) type
      then createTextInputProps ps mounted w k
      else if strict_equal type CheckboxField then createCheckboxProps ps mounted w k
      else NoProps)"

text \<open>
  \<open>fields\<close>: one descriptor per key of \<open>codec.props\<close>. \<open>formErrors[key] || ''\<close> is the
  empty string when the property is \<open>undefined\<close> or empty.
\<close>

definition field_of ::
  "StringTest \<Rightarrow> StringTest \<Rightarrow> Props \<Rightarrow> Mounted \<Rightarrow> Form \<Rightarrow> string \<Rightarrow> codec
   \<Rightarrow> Field" where
  "field_of isEmail isMobilePhone ps mounted w k type =
     \<lparr>props = createProps isEmail isMobilePhone ps mounted w k type,
      isInvalid = has_property (formErrors w) k,
      error = (if truthy (obj_get (formErrors w) k) then obj_get (formErrors w) k
               else VString [])\<rparr>"

definition fields ::
  "StringTest \<Rightarrow> StringTest \<Rightarrow> Props \<Rightarrow> Mounted \<Rightarrow> Form
   \<Rightarrow> (string \<times> Field) list" where
  "fields isEmail isMobilePhone ps mounted w =
     foldl (\<lambda>acc (k, type). obj_set acc k (field_of isEmail isMobilePhone ps mounted w k type))
       [] (object_entries ps)"


section \<open>Notions used in the statements\<close>

text \<open>Whether a decode succeeded, the failures it reported, and their messages.\<close>

definition succeeds :: "Validation \<Rightarrow> bool" where
  "succeeds r = (case r of Inl e \<Rightarrow> False | Inr a \<Rightarrow> True)"

definition failures :: "Validation \<Rightarrow> Errors" where
  "failures r = (case r of Inl e \<Rightarrow> e | Inr a \<Rightarrow> [])"

definition messages :: "Validation \<Rightarrow> string option list" where
  "messages r = map message (failures r)"

text \<open>
  A result without the contexts of its failures: the messages of the failures, or the
  decoded value.
\<close>

definition outcome :: "Validation \<Rightarrow> string option list + jsval" where
  "outcome r = (case r of Inl e \<Rightarrow> Inl (map message e) | Inr a \<Rightarrow> Inr a)"

text \<open>
  The type of \<open>t.union\<close> asks for at least two members. A union of no members fails
  without reporting any failure; a codec is proper when no union in it is empty.
\<close>

fun proper :: "codec \<Rightarrow> bool" where
  "proper StringType = True"
| "proper BooleanType = True"
| "proper (RefinementType i codec predicate name) = proper codec"
| "proper (WithMessage i codec msg) = proper codec"
| "proper (IntersectionType i codecs) = list_all proper codecs"
| "proper (UnionType i codecs) = (codecs \<noteq> [] \<and> list_all proper codecs)"

text \<open>The top-level field a failure lies under: the key of the second context entry.\<close>

definition field_key :: "ValidationError \<Rightarrow> string" where
  "field_key e = key (ctx e ! 1)"

text \<open>An edit of the form by one of the change handlers.\<close>

datatype Edit = TextChange string string | CheckboxChange string bool

fun apply_edit :: "Form \<Rightarrow> Edit \<Rightarrow> Form" where
  "apply_edit w (TextChange k target_value) = text_onChange k target_value w"
| "apply_edit w (CheckboxChange k target_checked) = checkbox_onChange k target_checked w"


text \<open>The initial value of the sign-up form in the end-to-end scenario.\<close>

definition signUpInitialState :: obj where
  "signUpInitialState =
     [(''company'', VString []), (''email'', VString []), (''password'', VString []),
      (''phone'', VString []), (''sendNewsletter'', VBoolean False)]"




section \<open>Codecs: results do not depend on the context\<close>

lemma failures_case: "(case r of Inl e \<Rightarrow> e | Inr a \<Rightarrow> []) = failures r"
  by (simp add: failures_def)

lemma messages_outcome: "messages r = (case outcome r of Inl ms \<Rightarrow> ms | Inr a \<Rightarrow> [])"
  by (simp add: messages_def failures_def outcome_def split: sum.splits)

lemma succeeds_outcome: "succeeds r = (case outcome r of Inl ms \<Rightarrow> False | Inr a \<Rightarrow> True)"
  by (simp add: succeeds_def outcome_def split: sum.splits)

lemma intersection_errors_messages_ctx:
  assumes "\<And>codec c c'. codec \<in> set codecs \<Longrightarrow>
             outcome (validate_codec codec u c) = outcome (validate_codec codec u c')"
  shows "map message (intersection_errors codecs n u c)
         = map message (intersection_errors codecs n' u c')"
  using assms
proof (induction codecs arbitrary: n n')
  case Nil
  show ?case by simp
next
  case (Cons codec rest)
  have h: "messages (validate_codec codec u (appendContext c (show_nat n) u))
         = messages (validate_codec codec u (appendContext c' (show_nat n') u))"
    using Cons.prems [of codec "appendContext c (show_nat n) u" "appendContext c' (show_nat n') u"]
    by (simp add: messages_outcome)
  have t: "map message (intersection_errors rest (Suc n) u c)
         = map message (intersection_errors rest (Suc n') u c')"
    using Cons.IH Cons.prems by simp
  show ?case using h t by (simp add: failures_case messages_def)
qed

lemma union_loop_outcome_ctx:
  assumes "\<And>codec c c'. codec \<in> set codecs \<Longrightarrow>
             outcome (validate_codec codec u c) = outcome (validate_codec codec u c')"
    and "map message errors = map message errors'"
  shows "outcome (union_loop codecs n u c errors) = outcome (union_loop codecs n' u c' errors')"
  using assms
proof (induction codecs arbitrary: n n' errors errors')
  case Nil
  then show ?case by (simp add: outcome_def)
next
  case (Cons codec rest)
  have h: "outcome (validate_codec codec u (appendContext c (show_nat n) u))
         = outcome (validate_codec codec u (appendContext c' (show_nat n') u))"
    using Cons.prems(1) [of codec] by simp
  show ?case
  proof (cases "validate_codec codec u (appendContext c (show_nat n) u)")
    case (Inl e)
    then obtain e' where e': "validate_codec codec u (appendContext c' (show_nat n') u) = Inl e'"
      and m: "map message e = map message e'"
      using h by (auto simp: outcome_def split: sum.splits)
    have "outcome (union_loop rest (Suc n) u c (errors @ e))
        = outcome (union_loop rest (Suc n') u c' (errors' @ e'))"
      using Cons.IH [of "errors @ e" "errors' @ e'"] Cons.prems m by simp
    then show ?thesis using Inl e' by simp
  next
    case (Inr a)
    then have "validate_codec codec u (appendContext c' (show_nat n') u) = Inr a"
      using h by (auto simp: outcome_def split: sum.splits)
    then show ?thesis using Inr by (simp add: outcome_def)
  qed
qed

lemma validate_codec_outcome_ctx:
  "outcome (validate_codec codec u c) = outcome (validate_codec codec u c')"
proof (induction codec arbitrary: u c c')
  case StringType
  show ?case by (cases u) (simp_all add: outcome_def failure_def)
next
  case BooleanType
  show ?case by (cases u) (simp_all add: outcome_def failure_def)
next
  case (RefinementType i codec predicate name)
  show ?case using RefinementType.IH [of u c c']
    by (auto simp: outcome_def failure_def split: sum.splits)
next
  case (WithMessage i codec msg)
  show ?case using WithMessage.IH [of u c c']
    by (auto simp: outcome_def split: sum.splits)
next
  case (IntersectionType i codecs)
  have "map message (intersection_errors codecs 0 u c)
      = map message (intersection_errors codecs 0 u c')"
    using IntersectionType.IH by (rule intersection_errors_messages_ctx)
  then show ?case
    by (auto simp: outcome_def Let_def)
next
  case (UnionType i codecs)
  show ?case using UnionType.IH
    by (simp add: union_loop_outcome_ctx)
qed

lemma validate_codec_decode_outcome:
  "outcome (validate_codec codec u c) = outcome (decode codec u)"
  unfolding decode_def by (rule validate_codec_outcome_ctx)

lemma validate_codec_messages: "messages (validate_codec codec u c) = messages (decode codec u)"
  by (simp add: messages_outcome validate_codec_decode_outcome)

lemma validate_codec_succeeds: "succeeds (validate_codec codec u c) = succeeds (decode codec u)"
  by (simp add: succeeds_outcome validate_codec_decode_outcome)

lemma intersection_errors_messages:
  "map message (intersection_errors codecs n u c)
   = concat (map (\<lambda>codec. messages (decode codec u)) codecs)"
proof (induction codecs arbitrary: n)
  case Nil
  show ?case by simp
next
  case (Cons codec rest)
  have "map message (failures (validate_codec codec u (appendContext c (show_nat n) u)))
      = messages (decode codec u)"
    using validate_codec_messages [of codec u "appendContext c (show_nat n) u"]
    by (simp add: messages_def)
  then show ?case using Cons.IH [of "Suc n"] by (simp add: failures_case)
qed

lemma intersection_messages:
  "messages (decode (IntersectionType i codecs) u)
   = concat (map (\<lambda>codec. messages (decode codec u)) codecs)"
proof -
  have m: "map message (intersection_errors codecs 0 u (getDefaultContext u))
         = concat (map (\<lambda>codec. messages (decode codec u)) codecs)"
    by (rule intersection_errors_messages)
  show ?thesis
  proof (cases "intersection_errors codecs 0 u (getDefaultContext u) = []")
    case True
    then show ?thesis using m by (simp add: decode_def messages_def failures_def)
  next
    case False
    then have "codecs \<noteq> []" by auto
    then show ?thesis using m False by (simp add: decode_def messages_def failures_def)
  qed
qed

lemma intersection_succeeds_messages:
  "succeeds (decode (IntersectionType i codecs) u)
   = list_all (\<lambda>codec. messages (decode codec u) = []) codecs"
proof -
  have m: "map message (intersection_errors codecs 0 u (getDefaultContext u))
         = concat (map (\<lambda>codec. messages (decode codec u)) codecs)"
    by (rule intersection_errors_messages)
  have e: "(intersection_errors codecs 0 u (getDefaultContext u) = [])
         = list_all (\<lambda>codec. messages (decode codec u) = []) codecs"
  proof -
    have "(intersection_errors codecs 0 u (getDefaultContext u) = [])
        = (map message (intersection_errors codecs 0 u (getDefaultContext u)) = [])"
      by simp
    also have "\<dots> = list_all (\<lambda>codec. messages (decode codec u) = []) codecs"
      unfolding m by (simp add: list_all_iff)
    finally show ?thesis .
  qed
  show ?thesis
  proof (cases "codecs = []")
    case True
    then show ?thesis by (simp add: decode_def succeeds_def)
  next
    case False
    then show ?thesis using e by (simp add: decode_def succeeds_def Let_def)
  qed
qed

lemma union_loop_errors_nonempty:
  "union_loop codecs n u c errors = Inl e \<Longrightarrow> errors \<noteq> [] \<Longrightarrow> e \<noteq> []"
  by (induction codecs arbitrary: n errors) (auto split: sum.splits)

lemma proper_failures_nonempty:
  "proper codec \<Longrightarrow> validate_codec codec u c = Inl e \<Longrightarrow> e \<noteq> []"
proof (induction codec arbitrary: u c e)
  case StringType
  then show ?case by (auto simp: failure_def split: jsval.splits)
next
  case BooleanType
  then show ?case by (auto simp: failure_def split: jsval.splits)
next
  case (RefinementType i codec predicate name)
  then show ?case by (auto simp: failure_def split: sum.splits if_splits)
next
  case (WithMessage i codec msg)
  then show ?case by (auto split: sum.splits)
next
  case (IntersectionType i codecs)
  then show ?case by (auto simp: Let_def split: if_splits)
next
  case (UnionType i codecs)
  then obtain codec rest where cs: "codecs = codec # rest" by (cases codecs) auto
  show ?case
  proof (cases "validate_codec codec u (appendContext c (show_nat 0) u)")
    case (Inl e1)
    have "proper codec" using UnionType.prems(1) cs by simp
    then have "e1 \<noteq> []" using UnionType.IH [of codec] cs Inl by simp
    moreover have "union_loop rest (Suc 0) u c ([] @ e1) = Inl e"
      using UnionType.prems(2) cs Inl by simp
    ultimately show ?thesis using union_loop_errors_nonempty by fastforce
  next
    case (Inr a)
    then show ?thesis using UnionType.prems(2) cs by simp
  qed
qed

lemma proper_succeeds_messages:
  assumes "proper codec"
  shows "succeeds (decode codec u) = (messages (decode codec u) = [])"
proof (cases "decode codec u")
  case (Inl e)
  then have "e \<noteq> []" using assms proper_failures_nonempty unfolding decode_def by blast
  then show ?thesis using Inl by (simp add: succeeds_def messages_def failures_def)
next
  case (Inr a)
  then show ?thesis by (simp add: succeeds_def messages_def failures_def)
qed

section \<open>Intersections\<close>

lemma TypeString_NonEmptyString_123:
  "messages (decode (IntersectionType j [TypeString, NonEmptyString]) (VNumber 123))
   = [Some validationErrors_TypeString, Some validationErrors_NonEmptyString]"
  by (simp add: decode_def messages_def failures_def TypeString_def NonEmptyString_def
      failure_def)

text \<open>
  Claim C1, as the code has it. An intersection validates the input with every member, in
  the declared order, and does not stop at a failure: it succeeds exactly when every
  member accepts the input, and otherwise reports the failures of all the members that
  reject it, in the declared order, so that its first failure is the one of the first
  failing member. Decoding the number 123 with \<open>intersection([TypeString, NonEmptyString])\<close>
  yields two failures: the one with the message of \<open>TypeString\<close>, then the one with the
  message of \<open>NonEmptyString\<close>.
\<close>

theorem intersection_collects_failures_of_all_members:
  assumes "list_all proper codecs"
  shows "succeeds (decode (IntersectionType i codecs) u)
           = list_all (\<lambda>codec. succeeds (decode codec u)) codecs
         \<and> messages (decode (IntersectionType i codecs) u)
           = concat (map (\<lambda>codec. messages (decode codec u)) codecs)
         \<and> messages (decode (IntersectionType j [TypeString, NonEmptyString]) (VNumber 123))
           = [Some validationErrors_TypeString, Some validationErrors_NonEmptyString]"
proof -
  have "list_all (\<lambda>codec. messages (decode codec u) = []) codecs
      = list_all (\<lambda>codec. succeeds (decode codec u)) codecs"
    using assms by (induction codecs) (simp_all add: proper_succeeds_messages)
  then have "succeeds (decode (IntersectionType i codecs) u)
           = list_all (\<lambda>codec. succeeds (decode codec u)) codecs"
    by (simp add: intersection_succeeds_messages)
  then show ?thesis
    using intersection_messages [of i codecs u] TypeString_NonEmptyString_123 [of j]
    by blast
qed

theorem intersection_collects_failures_of_all_members_witness:
  "list_all proper [TypeString, NonEmptyString]
   \<and> succeeds (decode (IntersectionType 100 [TypeString, NonEmptyString]) (VString []))
     = list_all (\<lambda>codec. succeeds (decode codec (VString []))) [TypeString, NonEmptyString]
   \<and> messages (decode (IntersectionType 100 [TypeString, NonEmptyString]) (VString []))
     = [Some validationErrors_NonEmptyString]"
proof -
  have h: "list_all proper [TypeString, NonEmptyString]"
    by (simp add: TypeString_def NonEmptyString_def)
  have m: "concat (map (\<lambda>codec. messages (decode codec (VString [])))
             [TypeString, NonEmptyString]) = [Some validationErrors_NonEmptyString]"
    by (simp add: decode_def messages_def failures_def TypeString_def NonEmptyString_def
        failure_def)
  show ?thesis
    using h m intersection_collects_failures_of_all_members
      [OF h, of 100 "VString []" 100]
    by simp
qed

text \<open>
  Claim C1 as stated asks for exactly one failure when 123 is decoded with
  \<open>intersection([TypeString, NonEmptyString])\<close>; there are two.
\<close>

theorem intersection_123_reports_two_failures:
  "length (failures (decode (IntersectionType 100 [TypeString, NonEmptyString]) (VNumber 123))) = 2
   \<and> messages (decode (IntersectionType 100 [TypeString, NonEmptyString]) (VNumber 123))
     = [Some ''Invalid string type.'', Some ''Can not be empty.'']"
  by (simp add: decode_def messages_def failures_def TypeString_def NonEmptyString_def
      failure_def validationErrors_TypeString_def validationErrors_NonEmptyString_def)


section \<open>Every codec returns the value it was given\<close>

lemma union_loop_same:
  assumes "\<And>codec c a. codec \<in> set codecs \<Longrightarrow> validate_codec codec u c = Inr a \<Longrightarrow> a = u"
  shows "union_loop codecs n u c errors = Inr a \<Longrightarrow> a = u"
  using assms
proof (induction codecs arbitrary: n errors)
  case Nil
  then show ?case by simp
next
  case (Cons codec rest)
  show ?case
  proof (cases "validate_codec codec u (appendContext c (show_nat n) u)")
    case (Inl e)
    then have "union_loop rest (Suc n) u c (errors @ e) = Inr a" using Cons.prems(1) by simp
    then show ?thesis using Cons.IH Cons.prems(2) by (meson list.set_intros(2))
  next
    case (Inr b)
    then have "b = u" using Cons.prems(2) [of codec] by simp
    then show ?thesis using Inr Cons.prems(1) by simp
  qed
qed

lemma validate_codec_same: "validate_codec codec u c = Inr a \<Longrightarrow> a = u"
proof (induction codec arbitrary: u c a)
  case StringType
  then show ?case by (auto simp: failure_def split: jsval.splits)
next
  case BooleanType
  then show ?case by (auto simp: failure_def split: jsval.splits)
next
  case (RefinementType i codec predicate name)
  then show ?case by (auto simp: failure_def split: sum.splits if_splits)
next
  case (WithMessage i codec msg)
  then show ?case by (auto split: sum.splits)
next
  case (IntersectionType i codecs)
  then show ?case by (auto simp: Let_def split: if_splits)
next
  case (UnionType i codecs)
  then show ?case using union_loop_same [of codecs u] by fastforce
qed

lemma decode_same: "decode codec u = Inr a \<Longrightarrow> a = u"
  unfolding decode_def by (rule validate_codec_same)

section \<open>Unions\<close>

lemma outcome_simps:
  "outcome (Inr a) = Inr a" "outcome (Inl e) = Inl (map message e)"
  by (simp_all add: outcome_def)

lemma outcome_Inr: "outcome r = Inr a \<Longrightarrow> r = Inr a"
  by (auto simp: outcome_def split: sum.splits)

lemma union_loop_outcome:
  "outcome (union_loop codecs n u c errors)
   = (case find (\<lambda>codec. succeeds (decode codec u)) codecs of
        Some codec \<Rightarrow> outcome (decode codec u)
      | None \<Rightarrow> Inl (map message errors
                      @ concat (map (\<lambda>codec. messages (decode codec u)) codecs)))"
proof (induction codecs arbitrary: n errors)
  case Nil
  show ?case by (simp add: outcome_def)
next
  case (Cons codec rest)
  let ?c = "appendContext c (show_nat n) u"
  show ?case
  proof (cases "validate_codec codec u ?c")
    case (Inl e)
    have "\<not> succeeds (decode codec u)"
      using Inl validate_codec_succeeds [of codec u ?c] by (simp add: succeeds_def)
    moreover have "messages (decode codec u) = map message e"
      using Inl validate_codec_messages [of codec u ?c] by (simp add: messages_def failures_def)
    ultimately show ?thesis using Inl Cons.IH [of "Suc n" "errors @ e"]
      by (simp split: option.splits)
  next
    case (Inr a)
    have "succeeds (decode codec u)"
      using Inr validate_codec_succeeds [of codec u ?c] by (simp add: succeeds_def)
    moreover have "outcome (decode codec u) = Inr a"
      using Inr validate_codec_decode_outcome [of codec u ?c] by (simp add: outcome_def)
    ultimately show ?thesis using Inr by (simp add: outcome_def)
  qed
qed

lemma union_outcome:
  "outcome (decode (UnionType i codecs) u)
   = (case find (\<lambda>codec. succeeds (decode codec u)) codecs of
        Some codec \<Rightarrow> outcome (decode codec u)
      | None \<Rightarrow> Inl (concat (map (\<lambda>codec. messages (decode codec u)) codecs)))"
proof -
  have "decode (UnionType i codecs) u = union_loop codecs 0 u (getDefaultContext u) []"
    by (simp add: decode_def)
  then show ?thesis
    using union_loop_outcome [of codecs 0 u "getDefaultContext u" "[]"]
    by (simp split: option.splits)
qed

lemma find_succeeds_outcome:
  "find (\<lambda>codec. succeeds (decode codec u)) codecs = Some codec \<Longrightarrow>
   \<exists>a. outcome (decode codec u) = Inr a"
  by (induction codecs) (auto simp: succeeds_def outcome_def split: if_splits sum.splits)

lemma union_succeeds:
  "succeeds (decode (UnionType i codecs) u)
   = list_ex (\<lambda>codec. succeeds (decode codec u)) codecs"
proof (cases "find (\<lambda>codec. succeeds (decode codec u)) codecs")
  case None
  then have "\<not> list_ex (\<lambda>codec. succeeds (decode codec u)) codecs"
    by (simp add: find_None_iff list_ex_iff)
  moreover have "\<not> succeeds (decode (UnionType i codecs) u)"
    using None union_outcome [of i codecs u] by (simp add: succeeds_outcome)
  ultimately show ?thesis by simp
next
  case (Some codec)
  then have "list_ex (\<lambda>codec. succeeds (decode codec u)) codecs"
    by (auto simp: find_Some_iff list_ex_iff)
  moreover have "succeeds (decode (UnionType i codecs) u)"
    using Some union_outcome [of i codecs u] find_succeeds_outcome [OF Some]
    by (auto simp: succeeds_outcome)
  ultimately show ?thesis by simp
qed

lemma NonEmptyTrimmedString_accepts:
  "0 < length s \<Longrightarrow> length (trim s) = length s \<Longrightarrow>
   validate_codec NonEmptyTrimmedString (VString s) c = Inr (VString s)"
  by (simp add: NonEmptyTrimmedString_def TypeString_def NonEmptyString_def TrimmedString_def)

lemma String64_accepts:
  "0 < length s \<Longrightarrow> length (trim s) = length s \<Longrightarrow> length s \<le> 64 \<Longrightarrow>
   validate_codec String64 (VString s) c = Inr (VString s)"
  by (simp add: String64_def NonEmptyTrimmedString_accepts Max64String_def)

lemma String512_accepts:
  "0 < length s \<Longrightarrow> length (trim s) = length s \<Longrightarrow> length s \<le> 512 \<Longrightarrow>
   validate_codec String512 (VString s) c = Inr (VString s)"
  by (simp add: String512_def NonEmptyTrimmedString_accepts Max512String_def)

lemma Password_accepts:
  "4 \<le> length s \<Longrightarrow> length (trim s) = length s \<Longrightarrow> length s \<le> 512 \<Longrightarrow>
   validate_codec Password (VString s) c = Inr (VString s)"
proof -
  assume a: "4 \<le> length s" "length (trim s) = length s" "length s \<le> 512"
  then have "0 < length s" by (cases s) simp_all
  then have "validate_codec String512 (VString s) (appendContext c (show_nat 0) (VString s))
             = Inr (VString s)"
    using a by (simp add: String512_accepts)
  then show ?thesis using a by (simp add: Password_def Min4String_def)
qed

text \<open>
  Claim C8. A union succeeds exactly when some member accepts the input, and its result
  is then the result of the first accepting member in the declared order; when every
  member rejects, it fails with the failures of all members, in that order. A string of
  ten characters without white space at its ends is decoded successfully by a union of
  \<open>Email\<close>, \<open>Password\<close>, \<open>Phone\<close> and \<open>String64\<close>, and by \<open>TextInputField\<close>, whose first
  member \<open>String64\<close> is the first to accept it.
\<close>

theorem union_first_success_else_all_failures:
  "succeeds (decode (UnionType i codecs) u)
     = list_ex (\<lambda>codec. succeeds (decode codec u)) codecs
   \<and> outcome (decode (UnionType i codecs) u)
     = (case find (\<lambda>codec. succeeds (decode codec u)) codecs of
          Some codec \<Rightarrow> outcome (decode codec u)
        | None \<Rightarrow> Inl (concat (map (\<lambda>codec. messages (decode codec u)) codecs)))
   \<and> (length s = 10 \<and> length (trim s) = length s \<longrightarrow>
        decode (UnionType j [Email isEmail, Password, Phone isMobilePhone, String64]) (VString s)
          = Inr (VString s)
        \<and> decode (TextInputField isEmail isMobilePhone) (VString s) = Inr (VString s)
        \<and> find (\<lambda>codec. succeeds (decode codec (VString s)))
             (types (TextInputField isEmail isMobilePhone)) = Some String64)"
proof -
  have third: "decode (UnionType j [Email isEmail, Password, Phone isMobilePhone, String64])
                 (VString s) = Inr (VString s)
        \<and> decode (TextInputField isEmail isMobilePhone) (VString s) = Inr (VString s)
        \<and> find (\<lambda>codec. succeeds (decode codec (VString s)))
             (types (TextInputField isEmail isMobilePhone)) = Some String64"
    if len: "length s = 10" and trimmed: "length (trim s) = length s"
  proof -
    have s64: "decode String64 (VString s) = Inr (VString s)"
      using len trimmed by (simp add: decode_def String64_accepts)
    have pw: "decode Password (VString s) = Inr (VString s)"
      using len trimmed by (simp add: decode_def Password_accepts)
    have a: "outcome (decode (UnionType j [Email isEmail, Password, Phone isMobilePhone, String64])
               (VString s)) = Inr (VString s)"
    proof (cases "decode (Email isEmail) (VString s)")
      case (Inl e)
      then show ?thesis using pw
        by (simp add: union_outcome succeeds_def outcome_simps)
    next
      case (Inr a)
      then have "a = VString s" by (rule decode_same)
      then show ?thesis using Inr
        by (simp add: union_outcome succeeds_def outcome_simps)
    qed
    have b: "outcome (decode (TextInputField isEmail isMobilePhone) (VString s)) = Inr (VString s)"
      using s64 by (simp add: TextInputField_def union_outcome succeeds_def outcome_simps)
    have c: "find (\<lambda>codec. succeeds (decode codec (VString s)))
             (types (TextInputField isEmail isMobilePhone)) = Some String64"
      using s64 by (simp add: TextInputField_def succeeds_def)
    show ?thesis using outcome_Inr [OF a] outcome_Inr [OF b] c by simp
  qed
  show ?thesis using union_succeeds [of i codecs u] union_outcome [of i codecs u] third
    by blast
qed

theorem union_first_success_else_all_failures_witness:
  "length ''abcdefghij'' = 10 \<and> length (trim ''abcdefghij'') = length ''abcdefghij''
   \<and> decode (UnionType 100 [Email (\<lambda>s. False), Password, Phone (\<lambda>s. False), String64])
       (VString ''abcdefghij'') = Inr (VString ''abcdefghij'')
   \<and> decode (TextInputField (\<lambda>s. False) (\<lambda>s. False)) (VString ''abcdefghij'')
       = Inr (VString ''abcdefghij'')"
proof -
  have h: "length ''abcdefghij'' = 10 \<and> length (trim ''abcdefghij'') = length ''abcdefghij''"
    by (simp add: trim_def is_white_space_def)
  show ?thesis
    using h union_first_success_else_all_failures
      [of 100 "[]" VNull "''abcdefghij''" 100 "\<lambda>s. False" "\<lambda>s. False"]
    by blast
qed


section \<open>\<open>errorsToFormErrors\<close> and contexts\<close>

lemma errorsToFormErrors_step_throws:
  "(errorsToFormErrors_step acc e = Inl TypeError) = (length (ctx e) < 2)"
proof (cases "drop 1 (ctx e)")
  case Nil
  then have "length (ctx e) < 2" by simp
  then show ?thesis using Nil by (simp add: errorsToFormErrors_step_def)
next
  case (Cons entry rest)
  then have "length (drop 1 (ctx e)) = Suc (length rest)" by simp
  then have "\<not> length (ctx e) < 2" by simp
  then show ?thesis using Cons by (simp add: errorsToFormErrors_step_def)
qed

lemma reduce_errorsToFormErrors_step_throws:
  "(reduce errorsToFormErrors_step acc errors = Inl TypeError)
   = list_ex (\<lambda>e. length (ctx e) < 2) errors"
proof (induction errors arbitrary: acc)
  case Nil
  show ?case by simp
next
  case (Cons e rest)
  show ?case
  proof (cases "errorsToFormErrors_step acc e")
    case (Inl x)
    then have "errorsToFormErrors_step acc e = Inl TypeError" by (cases x) simp
    then show ?thesis using errorsToFormErrors_step_throws [of acc e] by simp
  next
    case (Inr acc')
    then have "\<not> length (ctx e) < 2" using errorsToFormErrors_step_throws [of acc e] by simp
    then show ?thesis using Inr Cons.IH [of acc'] by simp
  qed
qed

lemma errorsToFormErrors_throws:
  "(errorsToFormErrors errors = Inl TypeError) = list_ex (\<lambda>e. length (ctx e) < 2) errors"
  unfolding errorsToFormErrors_def by (rule reduce_errorsToFormErrors_step_throws)

lemma errorsToFormErrors_returns:
  "(\<exists>errs. errorsToFormErrors errors = Inr errs) = list_all (\<lambda>e. 2 \<le> length (ctx e)) errors"
proof -
  have "(\<exists>errs. errorsToFormErrors errors = Inr errs) = (errorsToFormErrors errors \<noteq> Inl TypeError)"
  proof (cases "errorsToFormErrors errors")
    case (Inl x)
    then show ?thesis by (cases x) simp
  next
    case (Inr errs)
    then show ?thesis by simp
  qed
  also have "\<dots> = list_all (\<lambda>e. 2 \<le> length (ctx e)) errors"
    by (simp add: errorsToFormErrors_throws list_ex_iff list_all_iff not_less)
  finally show ?thesis .
qed

lemma decode_type_root_failure:
  "(\<forall>ps. u \<noteq> VObject ps) \<Longrightarrow>
   decode_type schema u = Inl [\<lparr>val = u, ctx = [\<lparr>key = [], actual = u\<rparr>], message = None\<rparr>]"
  by (cases u) (simp_all add: decode_type_def validate_type_def failure_def getDefaultContext_def)

text \<open>
  Claim C10. \<open>errorsToFormErrors\<close> reads the key of the second context entry of every
  error: it throws a TypeError exactly when some error of its input has a context of fewer
  than two entries, and returns a mapping exactly when every context has at least two. A
  decode of a value that is not an object fails at the root, with a context of one entry,
  and \<open>errorsToFormErrors\<close> throws on its failures.
\<close>

theorem errorsToFormErrors_faults_on_short_context:
  "(errorsToFormErrors errors = Inl TypeError) = list_ex (\<lambda>e. length (ctx e) < 2) errors
   \<and> (\<exists>errs. errorsToFormErrors errors = Inr errs)
     = list_all (\<lambda>e. 2 \<le> length (ctx e)) errors
   \<and> ((\<forall>ps. u \<noteq> VObject ps) \<longrightarrow>
        \<not> succeeds (decode_type schema u)
        \<and> errorsToFormErrors (failures (decode_type schema u)) = Inl TypeError)"
proof -
  have "\<not> succeeds (decode_type schema u)
        \<and> errorsToFormErrors (failures (decode_type schema u)) = Inl TypeError"
    if "\<forall>ps. u \<noteq> VObject ps"
    using decode_type_root_failure [OF that, of schema]
    by (simp add: succeeds_def failures_def errorsToFormErrors_throws)
  then show ?thesis
    using errorsToFormErrors_throws [of errors] errorsToFormErrors_returns [of errors]
    by blast
qed

theorem errorsToFormErrors_faults_on_short_context_witness:
  "(\<forall>ps. VString ''x'' \<noteq> VObject ps)
   \<and> \<not> succeeds (decode_type [(''email'', String64)] (VString ''x''))
   \<and> errorsToFormErrors (failures (decode_type [(''email'', String64)] (VString ''x'')))
     = Inl TypeError"
proof -
  have h: "\<forall>ps. VString ''x'' \<noteq> VObject ps" by simp
  show ?thesis
    using h errorsToFormErrors_faults_on_short_context
      [of "[]" "VString ''x''" "[(''email'', String64)]"]
    by blast
qed

section \<open>\<open>validate\<close> and \<open>reset\<close>\<close>

lemma validate_success:
  "decode_type schema (VObject (state w)) = Inr a \<Longrightarrow>
   validate schema mounted w = (w\<lparr>formErrors := []\<rparr>, Inr (Inr a))"
  by (simp add: validate_def onSuccess_def)

text \<open>
  Claim C4. When the decode of the current value succeeds, \<open>validate\<close> empties the stored
  form errors, whatever they were, changes nothing else, and returns the decoded value.
\<close>

theorem validate_success_clears_formErrors:
  assumes "decode_type schema (VObject (state w)) = Inr a"
  shows "validate schema mounted w = (w\<lparr>formErrors := []\<rparr>, Inr (Inr a))
         \<and> formErrors (fst (validate schema mounted w)) = []
         \<and> snd (validate schema mounted w) = Inr (Inr a)"
  using assms by (simp add: validate_success)

lemma object_entries_plain:
  "list_all (\<lambda>(k, v). \<not> is_array_index k) ob \<Longrightarrow> object_entries ob = ob"
proof -
  assume a: "list_all (\<lambda>(k, v). \<not> is_array_index k) ob"
  have "filter (\<lambda>(k, v). is_array_index k) ob = []"
    using a by (induction ob) auto
  moreover have "filter (\<lambda>(k, v). \<not> is_array_index k) ob = ob"
    using a by (induction ob) auto
  ultimately show ?thesis by (simp add: object_entries_def)
qed

lemma not_array_index: "\<not> is_digit (hd s) \<Longrightarrow> \<not> is_array_index s"
  by (cases s) (auto simp: is_array_index_def)

theorem validate_success_clears_formErrors_witness:
  "decode_type [(''email'', String64)] (VObject [(''email'', VString ''Acme'')])
     = Inr (VObject [(''email'', VString ''Acme'')])
   \<and> formErrors (fst (validate [(''email'', String64)] (\<lambda>k. NotMounted)
        \<lparr>initialStateRef = [(''email'', VString [])], state = [(''email'', VString ''Acme'')],
         formErrors = [(''email'', VString ''Can not be empty.'')], activeElement = None\<rparr>)) = []
   \<and> snd (validate [(''email'', String64)] (\<lambda>k. NotMounted)
        \<lparr>initialStateRef = [(''email'', VString [])], state = [(''email'', VString ''Acme'')],
         formErrors = [(''email'', VString ''Can not be empty.'')], activeElement = None\<rparr>)
     = Inr (Inr (VObject [(''email'', VString ''Acme'')]))"
proof -
  have t: "length (trim ''Acme'') = length ''Acme''"
    by (simp add: trim_def is_white_space_def)
  have e: "object_entries [(''email'', String64)] = [(''email'', String64)]"
    by (simp add: object_entries_plain not_array_index is_digit_def)
  have h: "decode_type [(''email'', String64)] (VObject [(''email'', VString ''Acme'')])
         = Inr (VObject [(''email'', VString ''Acme'')])"
    using t by (simp add: decode_type_def validate_type_def e obj_get_def String64_accepts)
  show ?thesis
    using h validate_success_clears_formErrors
      [of "[(''email'', String64)]"
          "\<lparr>initialStateRef = [(''email'', VString [])], state = [(''email'', VString ''Acme'')],
            formErrors = [(''email'', VString ''Can not be empty.'')], activeElement = None\<rparr>"
          "VObject [(''email'', VString ''Acme'')]" "\<lambda>k. NotMounted"]
    by simp
qed

lemma apply_edit_cells:
  "initialStateRef (apply_edit w e) = initialStateRef w"
  "formErrors (apply_edit w e) = formErrors w"
  "activeElement (apply_edit w e) = activeElement w"
  by (cases e; simp add: text_onChange_def checkbox_onChange_def)+

lemma foldl_apply_edit_cells:
  "initialStateRef (foldl apply_edit w edits) = initialStateRef w
   \<and> formErrors (foldl apply_edit w edits) = formErrors w
   \<and> activeElement (foldl apply_edit w edits) = activeElement w"
  by (induction edits arbitrary: w) (simp_all add: apply_edit_cells)

lemma validate_returns:
  "snd (validate schema mounted w) = Inr r \<Longrightarrow> r = decode_type schema (VObject (state w))"
  by (auto simp: validate_def Let_def split: sum.splits prod.splits option.splits)

lemma validate_throws:
  "snd (validate schema mounted w) = Inl e \<Longrightarrow>
   \<not> succeeds (decode_type schema (VObject (state w)))"
  by (auto simp: validate_def Let_def succeeds_def split: sum.splits prod.splits option.splits)

text \<open>
  Claim C5. \<open>reset\<close> puts the initial value given to \<open>useForm\<close> back as the current
  value, whatever edits were made, and leaves the form errors as they are; a \<open>validate\<close>
  after \<open>reset\<close> decodes the initial value.
\<close>

theorem reset_restores_initial_state:
  "state (reset w) = initialStateRef w
   \<and> formErrors (reset w) = formErrors w
   \<and> initialStateRef (reset w) = initialStateRef w
   \<and> reset (foldl apply_edit w edits) = w\<lparr>state := initialStateRef w\<rparr>
   \<and> state (reset (foldl apply_edit (useForm initialState) edits)) = initialState
   \<and> (case snd (validate schema mounted (reset (foldl apply_edit w edits))) of
        Inl e \<Rightarrow> \<not> succeeds (decode_type schema (VObject (initialStateRef w)))
      | Inr r \<Rightarrow> r = decode_type schema (VObject (initialStateRef w)))"
proof -
  have r: "reset (foldl apply_edit w edits) = w\<lparr>state := initialStateRef w\<rparr>"
    using foldl_apply_edit_cells [of w edits] by (simp add: reset_def)
  have i: "state (reset (foldl apply_edit (useForm initialState) edits)) = initialState"
    using foldl_apply_edit_cells [of "useForm initialState" edits]
    by (simp add: reset_def useForm_def)
  have v: "(case snd (validate schema mounted (reset (foldl apply_edit w edits))) of
        Inl e \<Rightarrow> \<not> succeeds (decode_type schema (VObject (initialStateRef w)))
      | Inr r \<Rightarrow> r = decode_type schema (VObject (initialStateRef w)))"
    using validate_returns [of schema mounted "w\<lparr>state := initialStateRef w\<rparr>"]
      validate_throws [of schema mounted "w\<lparr>state := initialStateRef w\<rparr>"] r
    by (auto split: sum.splits)
  show ?thesis using r i v by (simp add: reset_def)
qed

lemma focusFirstInvalidField_cases:
  "(\<exists>e. \<forall>w. focusFirstInvalidField refs errs w = Inl e)
   \<or> (\<forall>w. focusFirstInvalidField refs errs w = Inr w)
   \<or> (\<exists>p. \<forall>w. focusFirstInvalidField refs errs w = Inr (w\<lparr>activeElement := Some p\<rparr>))"
  by (auto simp: focusFirstInvalidField_def
      split: sum.splits list.splits RefSlot.splits RefCurrent.splits)

lemma onFail_state: "state (fst (onFail schema mounted errors w)) = state w"
proof (cases "errorsToFormErrors errors")
  case (Inl e)
  then show ?thesis by (simp add: onFail_def)
next
  case (Inr errs)
  show ?thesis
    using focusFirstInvalidField_cases [of "refsRef schema mounted" errs] Inr
    by (auto simp: onFail_def)
qed

lemma onFail_twice:
  "onFail schema mounted errors (fst (onFail schema mounted errors w))
   = onFail schema mounted errors w"
proof (cases "errorsToFormErrors errors")
  case (Inl e)
  then show ?thesis by (simp add: onFail_def)
next
  case (Inr errs)
  show ?thesis
    using focusFirstInvalidField_cases [of "refsRef schema mounted" errs] Inr
    by (auto simp: onFail_def)
qed

text \<open>
  Claim C7. A second \<open>validate\<close> straight after a first one has the same outcome and leaves
  the same form errors.
\<close>

theorem validate_twice_same:
  "validate schema mounted (fst (validate schema mounted w)) = validate schema mounted w
   \<and> formErrors (fst (validate schema mounted (fst (validate schema mounted w))))
     = formErrors (fst (validate schema mounted w))
   \<and> snd (validate schema mounted (fst (validate schema mounted w)))
     = snd (validate schema mounted w)"
proof -
  have "validate schema mounted (fst (validate schema mounted w)) = validate schema mounted w"
  proof (cases "decode_type schema (VObject (state w))")
    case (Inl errors)
    obtain w' r where o: "onFail schema mounted errors w = (w', r)" by (cases "onFail schema mounted errors w")
    have f: "fst (validate schema mounted w) = w'"
      using Inl o by (cases r) (simp_all add: validate_def)
    have "state w' = state w" using onFail_state [of schema mounted errors w] o by simp
    moreover have "onFail schema mounted errors w' = (w', r)"
      using onFail_twice [of schema mounted errors w] o by simp
    ultimately show ?thesis using Inl o f by (simp add: validate_def)
  next
    case (Inr a)
    then show ?thesis by (simp add: validate_def onSuccess_def)
  qed
  then show ?thesis by simp
qed


section \<open>The sign-up form\<close>

lemmas string_codec_defs =
  TypeString_def NonEmptyString_def TrimmedString_def NonEmptyTrimmedString_def
  Max64String_def Max512String_def Min4String_def EmailString_def PhoneString_def
  String64_def String512_def Email_def Password_def Phone_def

lemmas message_defs =
  validationErrors_TypeString_def validationErrors_NonEmptyString_def
  validationErrors_TrimmedString_def validationErrors_TooLong_def validationErrors_TooShort_def
  validationErrors_EmailString_def validationErrors_PhoneString_def

lemma trim_Nil: "trim [] = []"
  by (simp add: trim_def)

lemma SignUpForm_entries:
  "object_entries (SignUpForm isEmail isMobilePhone) = SignUpForm isEmail isMobilePhone"
  by (simp add: SignUpForm_def object_entries_plain not_array_index is_digit_def)

lemma first_decode_fields:
  "map (\<lambda>e. (key (ctx e ! 1), message e))
     (failures (decode_type (SignUpForm isEmail isMobilePhone) (VObject signUpInitialState)))
   = [(''company'', Some validationErrors_NonEmptyString),
      (''email'', Some validationErrors_NonEmptyString)]
     @ (if isEmail [] then [] else [(''email'', Some validationErrors_EmailString)])
     @ [(''password'', Some validationErrors_NonEmptyString),
        (''password'', Some validationErrors_TooShort),
        (''phone'', Some validationErrors_NonEmptyString)]
     @ (if isMobilePhone [] then [] else [(''phone'', Some validationErrors_PhoneString)])"
  apply (cases "isEmail []"; cases "isMobilePhone []")
  apply (simp_all add: decode_type_def validate_type_def SignUpForm_entries getDefaultContext_def)
  apply (simp_all add: SignUpForm_def signUpInitialState_def obj_get_def appendContext_def string_codec_defs failure_def trim_Nil failures_def has_own_def Let_def)
  done

lemma first_formErrors:
  "errorsToFormErrors
     (failures (decode_type (SignUpForm isEmail isMobilePhone) (VObject signUpInitialState)))
   = Inr [(''company'', VString validationErrors_NonEmptyString),
          (''email'', VString validationErrors_NonEmptyString),
          (''password'', VString validationErrors_NonEmptyString),
          (''phone'', VString validationErrors_NonEmptyString)]"
  apply (cases "isEmail []"; cases "isMobilePhone []")
  apply (simp_all add: decode_type_def validate_type_def SignUpForm_entries getDefaultContext_def)
  apply (simp_all add: SignUpForm_def signUpInitialState_def obj_get_def appendContext_def string_codec_defs failure_def trim_Nil failures_def has_own_def Let_def)
  apply (simp_all add: errorsToFormErrors_def errorsToFormErrors_step_def has_property_def has_own_def object_prototype_keys_def message_value_def)
  done

section \<open>The focus request when every ref is mounted\<close>






lemma validate_formErrors:
  assumes "decode_type schema (VObject (state w)) = Inl errors"
    and "errorsToFormErrors errors = Inr errs"
  shows "formErrors (fst (validate schema mounted w)) = errs"
proof -
  have "formErrors (fst (onFail schema mounted errors w)) = errs"
    using focusFirstInvalidField_cases [of "refsRef schema mounted" errs] assms(2)
    by (auto simp: onFail_def)
  then show ?thesis using assms(1)
    by (cases "onFail schema mounted errors w")
       (auto simp: validate_def split: option.splits)
qed


section \<open>The end-to-end scenario of the sign-up form\<close>

lemma signUp_refs:
  "refsRef (SignUpForm isEmail isMobilePhone) mounted
   = [(''company'', mounted ''company''), (''email'', mounted ''email''),
      (''password'', mounted ''password''), (''phone'', mounted ''phone''),
      (''sendNewsletter'', mounted ''sendNewsletter'')]"
  by (simp add: refsRef_def object_keys_def SignUpForm_entries) (simp add: SignUpForm_def)

lemma signUp_first_keys:
  "object_keys [(''company'', v1 :: jsval), (''email'', v2), (''password'', v3), (''phone'', v4)]
   = [''company'', ''email'', ''password'', ''phone'']"
  by (simp add: object_keys_def object_entries_plain not_array_index is_digit_def)

lemma signUp_first_decode_fails:
  "\<exists>errors. decode_type (SignUpForm isEmail isMobilePhone) (VObject signUpInitialState)
             = Inl errors"
proof (cases "decode_type (SignUpForm isEmail isMobilePhone) (VObject signUpInitialState)")
  case (Inl errors)
  then show ?thesis by simp
next
  case (Inr a)
  then have "errorsToFormErrors (failures
      (decode_type (SignUpForm isEmail isMobilePhone) (VObject signUpInitialState))) = Inr []"
    by (simp add: failures_def errorsToFormErrors_def)
  then show ?thesis using first_formErrors [of isEmail isMobilePhone] by simp
qed










section \<open>The focus request when refs are not mounted\<close>

lemma email_entries:
  "object_entries [(''email'', Email isEmail)] = [(''email'', Email isEmail)]"
  by (simp add: object_entries_plain not_array_index is_digit_def)

lemma email_formErrors:
  "errorsToFormErrors
     (failures (decode_type [(''email'', Email isEmail)] (VObject [(''email'', VString [])])))
   = Inr [(''email'', VString validationErrors_NonEmptyString)]"
  apply (cases "isEmail []")
  apply (simp_all add: decode_type_def validate_type_def email_entries getDefaultContext_def)
  apply (simp_all add: obj_get_def appendContext_def string_codec_defs failure_def trim_Nil
      failures_def has_own_def Let_def)
  apply (simp_all add: errorsToFormErrors_def errorsToFormErrors_step_def has_property_def
      has_own_def object_prototype_keys_def message_value_def)
  done

lemma email_decode_fails:
  "\<exists>errors. decode_type [(''email'', Email isEmail)] (VObject [(''email'', VString [])])
             = Inl errors"
proof (cases "decode_type [(''email'', Email isEmail)] (VObject [(''email'', VString [])])")
  case (Inl errors)
  then show ?thesis by simp
next
  case (Inr a)
  then have "errorsToFormErrors (failures
      (decode_type [(''email'', Email isEmail)] (VObject [(''email'', VString [])]))) = Inr []"
    by (simp add: failures_def errorsToFormErrors_def)
  then show ?thesis using email_formErrors [of isEmail] by simp
qed

text \<open>
  Claim C6 asks that a focus request which finds no element be a no-op that never changes
  what \<open>validate\<close> returns. The code does so when one field is invalid: with the ref of
  \<open>email\<close> not mounted, \<open>validate\<close> returns the failed decode. With two or more invalid
  fields the sort compares their refs, \<open>'nodeType' in undefined\<close> throws, and \<open>validate\<close>
  ends with a TypeError instead of returning: so for the sign-up form with its initial
  value and no ref mounted.
\<close>

theorem validate_throws_when_invalid_fields_not_mounted:
  "\<not> succeeds (decode_type (SignUpForm isEmail isMobilePhone) (VObject signUpInitialState))
   \<and> snd (validate (SignUpForm isEmail isMobilePhone) (\<lambda>k. NotMounted)
          (useForm signUpInitialState)) = Inl TypeError
   \<and> snd (validate [(''email'', Email isEmail)] (\<lambda>k. NotMounted)
          (useForm [(''email'', VString [])]))
     = Inr (decode_type [(''email'', Email isEmail)] (VObject [(''email'', VString [])]))"
proof -
  let ?S = "SignUpForm isEmail isMobilePhone"
  let ?errs = "[(''company'', VString validationErrors_NonEmptyString),
      (''email'', VString validationErrors_NonEmptyString),
      (''password'', VString validationErrors_NonEmptyString),
      (''phone'', VString validationErrors_NonEmptyString)]"
  obtain errors where e: "decode_type ?S (VObject signUpInitialState) = Inl errors"
    using signUp_first_decode_fails [of isEmail isMobilePhone] by auto
  then have p: "errorsToFormErrors errors = Inr ?errs"
    using first_formErrors [of isEmail isMobilePhone] by (simp add: failures_def)
  have f: "focusFirstInvalidField (refsRef ?S (\<lambda>k. NotMounted)) ?errs w = Inl TypeError" for w
    by (simp add: focusFirstInvalidField_def signUp_first_keys signUp_refs refs_get_def
        array_sort_def compare_refs_def)
  have a: "\<not> succeeds (decode_type ?S (VObject signUpInitialState))"
    using e by (simp add: succeeds_def)
  have b: "snd (validate ?S (\<lambda>k. NotMounted) (useForm signUpInitialState)) = Inl TypeError"
    using e p f by (simp add: validate_def onFail_def useForm_def)
  have c: "snd (validate [(''email'', Email isEmail)] (\<lambda>k. NotMounted)
          (useForm [(''email'', VString [])]))
     = Inr (decode_type [(''email'', Email isEmail)] (VObject [(''email'', VString [])]))"
  proof -
    have k: "object_keys [(''email'', v :: jsval)] = [''email'']" for v
      by (simp add: object_keys_def object_entries_plain not_array_index is_digit_def)
    have r: "refsRef [(''email'', Email isEmail)] (\<lambda>k. NotMounted) = [(''email'', NotMounted)]"
      by (simp add: refsRef_def object_keys_def email_entries)
    obtain errors where d: "decode_type [(''email'', Email isEmail)]
          (VObject [(''email'', VString [])]) = Inl errors"
      using email_decode_fails [of isEmail] by auto
    then have p: "errorsToFormErrors errors
        = Inr [(''email'', VString validationErrors_NonEmptyString)]"
      using email_formErrors [of isEmail] by (simp add: failures_def)
    have "focusFirstInvalidField [(''email'', NotMounted)]
            [(''email'', VString validationErrors_NonEmptyString)] w = Inr w" for w
      by (simp add: focusFirstInvalidField_def k refs_get_def array_sort_def)
    then show ?thesis using d p r
      by (simp add: validate_def onFail_def useForm_def)
  qed
  show ?thesis using a b c by simp
qed


section \<open>The form errors: the first failure of each field\<close>

text \<open>
  For failures that lie under field names which are not names of members of
  \<open>Object.prototype\<close>, \<open>errorsToFormErrors\<close> returns a mapping with one entry per field
  name, holding the message of the first failure under that name.
\<close>

lemma obj_set_new: "\<not> has_own acc k \<Longrightarrow> obj_set acc k v = acc @ [(k, v)]"
  by (induction acc) (auto simp: has_own_def)

lemma errorsToFormErrors_step_ordinary:
  assumes "2 \<le> length (ctx e)" and "field_key e \<notin> set object_prototype_keys"
  shows "errorsToFormErrors_step acc e
         = Inr (if has_own acc (field_key e) then acc
                else acc @ [(field_key e, message_value e)])"
proof -
  obtain entry rest where d: "drop 1 (ctx e) = entry # rest"
    using assms(1) by (cases "drop 1 (ctx e)") auto
  then have "entry = ctx e ! 1"
    using assms(1) by (metis One_nat_def Cons_nth_drop_Suc drop_all list.inject not_less
        list.distinct(1) nth_via_drop)
  then have "key entry = field_key e" by (simp add: field_key_def)
  then show ?thesis using d assms(2)
    by (simp add: errorsToFormErrors_step_def has_property_def obj_set_new)
qed

lemma reduce_errorsToFormErrors_step_ordinary:
  assumes "list_all (\<lambda>e. 2 \<le> length (ctx e) \<and> field_key e \<notin> set object_prototype_keys) errors"
    and "distinct (map fst acc)"
  shows "\<exists>errs. reduce errorsToFormErrors_step acc errors = Inr errs
           \<and> distinct (map fst errs)
           \<and> set (map fst errs) = set (map fst acc) \<union> field_key ` set errors
           \<and> (\<forall>k. map_of errs k =
                 (case map_of acc k of
                    Some v \<Rightarrow> Some v
                  | None \<Rightarrow> map_option message_value (find (\<lambda>e. field_key e = k) errors)))"
  using assms
proof (induction errors arbitrary: acc)
  case Nil
  then show ?case by (auto split: option.splits)
next
  case (Cons e rest)
  let ?acc' = "if has_own acc (field_key e) then acc else acc @ [(field_key e, message_value e)]"
  have s: "errorsToFormErrors_step acc e = Inr ?acc'"
    using Cons.prems(1) by (simp add: errorsToFormErrors_step_ordinary)
  have d: "distinct (map fst ?acc')"
    using Cons.prems(2) by (auto simp: has_own_def)
  have r: "list_all (\<lambda>e. 2 \<le> length (ctx e) \<and> field_key e \<notin> set object_prototype_keys) rest"
    using Cons.prems(1) by simp
  obtain errs where e: "reduce errorsToFormErrors_step ?acc' rest = Inr errs"
    "distinct (map fst errs)"
    "set (map fst errs) = set (map fst ?acc') \<union> field_key ` set rest"
    "\<forall>k. map_of errs k =
                 (case map_of ?acc' k of
                    Some v \<Rightarrow> Some v
                  | None \<Rightarrow> map_option message_value (find (\<lambda>e. field_key e = k) rest))"
    using Cons.IH [OF r d] by blast
  have m: "map_of errs k =
                 (case map_of acc k of
                    Some v \<Rightarrow> Some v
                  | None \<Rightarrow> map_option message_value (find (\<lambda>e. field_key e = k) (e # rest)))"
    for k
  proof (cases "has_own acc (field_key e)")
    case True
    then obtain v where "map_of acc (field_key e) = Some v"
      by (auto simp: has_own_def) (metis map_of_eq_None_iff not_Some_eq image_iff fst_conv)
    then show ?thesis using e(4) True by (auto split: option.splits)
  next
    case False
    then have "map_of acc (field_key e) = None"
      by (simp add: has_own_def map_of_eq_None_iff)
    then show ?thesis using e(4) False by (auto simp: map_add_def split: option.splits)
  qed
  have k: "set (map fst errs) = set (map fst acc) \<union> field_key ` set (e # rest)"
    using e(3) by (auto simp: has_own_def)
  show ?case using s e(1,2) m k by auto
qed

lemma errorsToFormErrors_first_failure_per_field:
  assumes "list_all (\<lambda>e. 2 \<le> length (ctx e) \<and> field_key e \<notin> set object_prototype_keys) errors"
  shows "\<exists>errs. errorsToFormErrors errors = Inr errs
           \<and> distinct (map fst errs)
           \<and> set (map fst errs) = field_key ` set errors
           \<and> (\<forall>k. map_of errs k
                  = map_option message_value (find (\<lambda>e. field_key e = k) errors))"
  using reduce_errorsToFormErrors_step_ordinary [OF assms, of "[]"]
  by (simp add: errorsToFormErrors_def)

text \<open>
  Every failure of a decode of an object with \<open>t.type\<close> lies under one of the keys of the
  schema: its context starts with the root entry and the entry of that key.
\<close>

lemma take_append_prefix:
  assumes "take (Suc (length c)) xs = c @ [x]"
  shows "take (length c) xs = c"
proof -
  have "take (length c) xs = take (length c) (take (Suc (length c)) xs)" by simp
  then show ?thesis using assms by simp
qed

lemma intersection_errors_ctx:
  assumes "\<And>codec c errs. codec \<in> set codecs \<Longrightarrow> validate_codec codec u c = Inl errs \<Longrightarrow>
             \<forall>e\<in>set errs. take (length c) (ctx e) = c"
  shows "\<forall>e\<in>set (intersection_errors codecs n u c). take (length c) (ctx e) = c"
  using assms
proof (induction codecs arbitrary: n)
  case Nil
  show ?case by simp
next
  case (Cons codec rest)
  have "\<forall>e\<in>set (failures (validate_codec codec u (appendContext c (show_nat n) u))).
          take (length c) (ctx e) = c"
  proof (cases "validate_codec codec u (appendContext c (show_nat n) u)")
    case (Inl errs)
    then have "\<forall>e\<in>set errs. take (length (appendContext c (show_nat n) u)) (ctx e)
                 = appendContext c (show_nat n) u"
      using Cons.prems [of codec] by simp
    then show ?thesis using Inl
      by (auto simp: failures_def appendContext_def dest: take_append_prefix)
  next
    case (Inr a)
    then show ?thesis by (simp add: failures_def)
  qed
  moreover have "\<forall>e\<in>set (intersection_errors rest (Suc n) u c). take (length c) (ctx e) = c"
  proof (rule Cons.IH)
    fix codec c errs
    assume "codec \<in> set rest" "validate_codec codec u c = Inl errs"
    then show "\<forall>e\<in>set errs. take (length c) (ctx e) = c"
      using Cons.prems [of codec c errs] by simp
  qed
  ultimately show ?case by (auto simp: failures_case)
qed

lemma union_loop_ctx:
  assumes "\<And>codec c errs. codec \<in> set codecs \<Longrightarrow> validate_codec codec u c = Inl errs \<Longrightarrow>
             \<forall>e\<in>set errs. take (length c) (ctx e) = c"
    and "\<forall>e\<in>set errors. take (length c) (ctx e) = c"
    and "union_loop codecs n u c errors = Inl errs"
  shows "\<forall>e\<in>set errs. take (length c) (ctx e) = c"
  using assms
proof (induction codecs arbitrary: n errors)
  case Nil
  then show ?case by simp
next
  case (Cons codec rest)
  show ?case
  proof (cases "validate_codec codec u (appendContext c (show_nat n) u)")
    case (Inl e1)
    then have "\<forall>e\<in>set e1. take (length (appendContext c (show_nat n) u)) (ctx e)
                 = appendContext c (show_nat n) u"
      using Cons.prems(1) [of codec] by simp
    then have "\<forall>e\<in>set (errors @ e1). take (length c) (ctx e) = c"
      using Cons.prems(2) by (auto simp: appendContext_def dest: take_append_prefix)
    moreover have "union_loop rest (Suc n) u c (errors @ e1) = Inl errs"
      using Cons.prems(3) Inl by simp
    ultimately show ?thesis
    proof (intro Cons.IH [of "errors @ e1" "Suc n"])
      fix codec c errs
      assume "codec \<in> set rest" "validate_codec codec u c = Inl errs"
      then show "\<forall>e\<in>set errs. take (length c) (ctx e) = c"
        using Cons.prems(1) [of codec c errs] by simp
    qed
  next
    case (Inr a)
    then show ?thesis using Cons.prems(3) by simp
  qed
qed

lemma validate_codec_ctx:
  "validate_codec codec u c = Inl errs \<Longrightarrow> \<forall>e\<in>set errs. take (length c) (ctx e) = c"
proof (induction codec arbitrary: u c errs)
  case StringType
  then show ?case by (auto simp: failure_def split: jsval.splits)
next
  case BooleanType
  then show ?case by (auto simp: failure_def split: jsval.splits)
next
  case (RefinementType i codec predicate name)
  then show ?case by (auto simp: failure_def split: sum.splits if_splits)
next
  case (WithMessage i codec msg)
  then show ?case by (auto split: sum.splits)
next
  case (IntersectionType i codecs)
  have "\<forall>e\<in>set (intersection_errors codecs 0 u c). take (length c) (ctx e) = c"
    using IntersectionType.IH by (rule intersection_errors_ctx)
  then show ?case using IntersectionType.prems by (auto simp: Let_def split: if_splits)
next
  case (UnionType i codecs)
  show ?case
    using UnionType.IH UnionType.prems union_loop_ctx [of codecs u "[]" c 0 errs]
    by simp
qed

lemma type_loop_field_keys:
  assumes "type_loop entries a c errors = (errs, a')"
    and "\<forall>e\<in>set errors. length c < length (ctx e) \<and> key (ctx e ! length c) \<in> K"
    and "fst ` set entries \<subseteq> K"
  shows "\<forall>e\<in>set errs. length c < length (ctx e) \<and> key (ctx e ! length c) \<in> K"
  using assms
proof (induction entries arbitrary: a errors)
  case Nil
  then show ?case by simp
next
  case (Cons entry rest)
  obtain k type where kt: "entry = (k, type)" by (cases entry)
  let ?c = "appendContext c k (obj_get a k)"
  show ?case
  proof (cases "validate_codec type (obj_get a k) ?c")
    case (Inl e1)
    have "\<forall>e\<in>set e1. take (length ?c) (ctx e) = ?c"
      using Inl by (rule validate_codec_ctx)
    then have "\<forall>e\<in>set e1. length c < length (ctx e) \<and> key (ctx e ! length c) = k"
    proof (intro ballI)
      fix e assume "\<forall>e\<in>set e1. take (length ?c) (ctx e) = ?c" "e \<in> set e1"
      then have t: "take (Suc (length c)) (ctx e) = c @ [\<lparr>key = k, actual = obj_get a k\<rparr>]"
        by (simp add: appendContext_def)
      then have l: "length c < length (ctx e)"
        by (metis Suc_le_lessD length_append_singleton length_take min.cobounded1)
      have "ctx e ! length c = (take (Suc (length c)) (ctx e)) ! length c" by simp
      then have "ctx e ! length c = \<lparr>key = k, actual = obj_get a k\<rparr>" using t by simp
      then show "length c < length (ctx e) \<and> key (ctx e ! length c) = k" using l by simp
    qed
    then have "\<forall>e\<in>set (errors @ e1). length c < length (ctx e) \<and> key (ctx e ! length c) \<in> K"
      using Cons.prems(2,3) kt by auto
    moreover have "type_loop rest a c (errors @ e1) = (errs, a')"
      using Cons.prems(1) kt Inl by (simp add: Let_def)
    ultimately show ?thesis using Cons.IH [of a "errors @ e1"] Cons.prems(3) by simp
  next
    case (Inr vak)
    then have "type_loop rest a c errors = (errs, a')
             \<or> type_loop rest (obj_set a k vak) c errors = (errs, a')"
      using Cons.prems(1) kt by (simp add: Let_def split: if_splits)
    then show ?thesis using Cons.IH Cons.prems(2,3) by auto
  qed
qed

lemma set_object_entries: "set (object_entries ob) = set ob"
  by (auto simp: object_entries_def)

lemma decode_type_field_keys:
  assumes "decode_type schema (VObject ps) = Inl errors"
  shows "\<forall>e\<in>set errors. 2 \<le> length (ctx e) \<and> field_key e \<in> fst ` set schema"
proof -
  obtain errs a where t: "type_loop (object_entries schema) ps
      (getDefaultContext (VObject ps)) [] = (errs, a)"
    by (cases "type_loop (object_entries schema) ps (getDefaultContext (VObject ps)) []")
  then have "errs = errors" using assms
    by (simp add: decode_type_def validate_type_def split: if_splits)
  moreover have "\<forall>e\<in>set errs. length (getDefaultContext (VObject ps)) < length (ctx e)
      \<and> key (ctx e ! length (getDefaultContext (VObject ps))) \<in> fst ` set schema"
    using type_loop_field_keys [OF t, of "fst ` set schema"] by (simp add: set_object_entries)
  ultimately show ?thesis by (auto simp: getDefaultContext_def field_key_def)
qed

lemma validate_formErrors_first_failure_per_field:
  assumes "decode_type schema (VObject (state w)) = Inl errors"
    and "list_all (\<lambda>(k, type). k \<notin> set object_prototype_keys) schema"
  shows "distinct (map fst (formErrors (fst (validate schema mounted w))))
       \<and> set (map fst (formErrors (fst (validate schema mounted w)))) = field_key ` set errors
       \<and> field_key ` set errors \<subseteq> fst ` set schema
       \<and> (\<forall>k. map_of (formErrors (fst (validate schema mounted w))) k
              = map_option message_value (find (\<lambda>e. field_key e = k) errors))"
proof -
  have k: "\<forall>e\<in>set errors. 2 \<le> length (ctx e) \<and> field_key e \<in> fst ` set schema"
    using assms(1) by (rule decode_type_field_keys)
  have "list_all (\<lambda>e. 2 \<le> length (ctx e) \<and> field_key e \<notin> set object_prototype_keys) errors"
    unfolding list_all_iff
  proof (intro ballI conjI)
    fix e assume e: "e \<in> set errors"
    then show "2 \<le> length (ctx e)" using k by simp
    obtain x where "x \<in> set schema" "field_key e = fst x" using k e by auto
    then show "field_key e \<notin> set object_prototype_keys"
      using assms(2) by (auto simp: list_all_iff)
  qed
  then obtain errs where e: "errorsToFormErrors errors = Inr errs"
    "distinct (map fst errs)" "set (map fst errs) = field_key ` set errors"
    "\<forall>k. map_of errs k = map_option message_value (find (\<lambda>e. field_key e = k) errors)"
    using errorsToFormErrors_first_failure_per_field by blast
  have "formErrors (fst (validate schema mounted w)) = errs"
    using assms(1) e(1) by (rule validate_formErrors)
  then show ?thesis using e k by auto
qed


section \<open>Field names that plain objects inherit\<close>

lemma constructor_entries:
  "object_entries [(''constructor'', v)] = [(''constructor'', v)]"
  by (simp add: object_entries_plain not_array_index is_digit_def)

lemma constructor_decode:
  "decode_type [(''constructor'', String64)] (VObject [(''constructor'', VString [])])
   = Inl [\<lparr>val = VString [],
           ctx = [\<lparr>key = [], actual = VObject [(''constructor'', VString [])]\<rparr>,
                  \<lparr>key = ''constructor'', actual = VString []\<rparr>,
                  \<lparr>key = show_nat 0, actual = VString []\<rparr>,
                  \<lparr>key = show_nat (Suc 0), actual = VString []\<rparr>],
           message = Some validationErrors_NonEmptyString\<rparr>]"
  apply (simp add: decode_type_def validate_type_def constructor_entries getDefaultContext_def)
  apply (simp add: obj_get_def appendContext_def string_codec_defs failure_def trim_Nil Let_def)
  done

text \<open>
  Claim C2 says that the form errors of a failing \<open>validate\<close> hold, for each invalid
  field, the message of its first failure. The code tests \<open>key in acc\<close> on a plain object,
  which is also true of every name inherited from \<open>Object.prototype\<close>: for a schema with
  the one field \<open>constructor\<close> and an empty value, the decode fails with the failure of that
  field, no entry is recorded for it, the form errors stay empty, and \<open>validate\<close> then
  throws in the focus request. (Lemma \<open>validate_formErrors_first_failure_per_field\<close> is
  the claim for schemas without such names.)
\<close>

theorem validate_drops_failure_of_inherited_field_name:
  "messages (decode_type [(''constructor'', String64)] (VObject [(''constructor'', VString [])]))
     = [Some ''Can not be empty.'']
   \<and> map field_key
       (failures (decode_type [(''constructor'', String64)]
          (VObject [(''constructor'', VString [])])))
     = [''constructor'']
   \<and> formErrors (fst (validate [(''constructor'', String64)] mounted
        (useForm [(''constructor'', VString [])]))) = []
   \<and> snd (validate [(''constructor'', String64)] mounted
        (useForm [(''constructor'', VString [])])) = Inl TypeError"
proof -
  let ?e = "\<lparr>val = VString [],
           ctx = [\<lparr>key = [], actual = VObject [(''constructor'', VString [])]\<rparr>,
                  \<lparr>key = ''constructor'', actual = VString []\<rparr>,
                  \<lparr>key = show_nat 0, actual = VString []\<rparr>,
                  \<lparr>key = show_nat (Suc 0), actual = VString []\<rparr>],
           message = Some validationErrors_NonEmptyString\<rparr>"
  have p: "errorsToFormErrors [?e] = Inr []"
    by (simp add: errorsToFormErrors_def errorsToFormErrors_step_def has_property_def
        object_prototype_keys_def)
  have f: "focusFirstInvalidField refs [] w = Inl TypeError" for refs w
    by (simp add: focusFirstInvalidField_def object_keys_def object_entries_def array_sort_def)
  have v: "validate [(''constructor'', String64)] mounted (useForm [(''constructor'', VString [])])
      = ((useForm [(''constructor'', VString [])])\<lparr>formErrors := []\<rparr>, Inl TypeError)"
    using constructor_decode p f by (simp add: validate_def onFail_def useForm_def)
  show ?thesis
    using constructor_decode v
    by (simp add: messages_def failures_def field_key_def validationErrors_NonEmptyString_def)
qed

text \<open>
  Claim C9 says that \<open>isInvalid\<close> holds exactly when the field name is present in the form
  errors, and that \<open>error\<close> is the message or the empty string. The code reads
  \<open>key in formErrors\<close> and \<open>formErrors[key]\<close> on a plain object: for a field named
  \<open>constructor\<close> and empty form errors, \<open>isInvalid\<close> is true and \<open>error\<close> is the inherited
  member. (Lemma \<open>fields_ordinary_field_name\<close> is the claim, with the dispatch on the
  field's codec, for the other field names.)
\<close>

theorem fields_marks_inherited_field_name_invalid:
  "formErrors (useForm [(''constructor'', VString ''Acme'')]) = []
   \<and> map (\<lambda>(k, f). (k, isInvalid f, error f))
       (fields isEmail isMobilePhone [(''constructor'', String64)] mounted
          (useForm [(''constructor'', VString ''Acme'')]))
     = [(''constructor'', True, VBuiltin ''constructor'')]"
  by (simp add: fields_def constructor_entries field_of_def useForm_def has_property_def
      obj_get_def object_prototype_keys_def)

lemma map_of_obj_set: "map_of (obj_set acc k v) = (map_of acc)(k \<mapsto> v)"
  by (induction acc) auto

lemma map_of_foldl_obj_set:
  "map_of (foldl (\<lambda>acc (k, type). obj_set acc k (f k type)) acc entries) k
   = (case map_of (rev entries) k of Some type \<Rightarrow> Some (f k type) | None \<Rightarrow> map_of acc k)"
proof (induction entries arbitrary: acc)
  case Nil
  show ?case by simp
next
  case (Cons entry rest)
  obtain k' type' where e: "entry = (k', type')" by (cases entry)
  show ?case using Cons.IH [of "obj_set acc k' (f k' type')"] e
    by (auto simp: map_of_obj_set map_add_def split: option.splits)
qed

lemma distinct_object_entries:
  "distinct (map fst ob) \<Longrightarrow> distinct (map fst (object_entries ob))"
  by (auto simp: object_entries_def distinct_map inj_on_def)

lemma map_of_object_entries:
  assumes "distinct (map fst ob)"
  shows "map_of (rev (object_entries ob)) = map_of ob"
proof (rule map_of_inject_set [THEN iffD2])
  show "distinct (map fst (rev (object_entries ob)))"
    using distinct_object_entries [OF assms] by (simp add: rev_map [symmetric])
  show "distinct (map fst ob)" by (rule assms)
  show "set (rev (object_entries ob)) = set ob" by (simp add: set_object_entries)
qed

lemma fields_ordinary_field_name:
  assumes "distinct (map fst schema)" and "(k, type) \<in> set schema"
    and "k \<notin> set object_prototype_keys"
  shows "\<exists>f. map_of (fields isEmail isMobilePhone schema mounted w) k = Some f
     \<and> props f
       = (if array_includes (types (TextInputField isEmail isMobilePhone)) type
          then TextInputProps (obj_get (state w) k) (text_onChange k)
                 (onKeyPress schema mounted) (refs_get (refsRef schema mounted) k)
          else if strict_equal type CheckboxField
          then CheckboxProps (obj_get (state w) k) (checkbox_onChange k)
                 (refs_get (refsRef schema mounted) k)
          else NoProps)
     \<and> isInvalid f = has_own (formErrors w) k
     \<and> error f
       = (case map_of (formErrors w) k of
            Some v \<Rightarrow> if truthy v then v else VString []
          | None \<Rightarrow> VString [])"
proof -
  have "map_of schema k = Some type" using assms(1,2) by simp
  then have "map_of (rev (object_entries schema)) k = Some type"
    using map_of_object_entries [OF assms(1)] by simp
  then have "map_of (fields isEmail isMobilePhone schema mounted w) k
      = Some (field_of isEmail isMobilePhone schema mounted w k type)"
    by (simp add: fields_def map_of_foldl_obj_set)
  then show ?thesis using assms(3)
    by (auto simp: field_of_def createProps_def createTextInputProps_def
        createCheckboxProps_def has_property_def obj_get_def split: option.splits)
qed

end
